theory Spec2Isabelle
  imports Complex_Main
begin

text \<open>
  A model of the crawl orchestration of the web crawler: the confidence heuristic of
  \<^verbatim>\<open>src/ocr/ocrService.js\<close> and the crawl jobs of \<^verbatim>\<open>src/crawler/crawlerService.js\<close>.

  \<^item> The browser engine, the recognition engine, the advisory service, the event
    broadcaster and the clock are not modelled; what they answer, and whether a
    call to them is rejected, is given by environment records. The calls made
    to them are written to a log.
  \<^item> The durable store is a finite map that is part of the state; its operations
    do not fail. Logging and broadcasting have no effect on the state and are
    left out.
  \<^item> The objects of \<^verbatim>\<open>activeCrawls\<close> live on a heap, since an execution of
    \<^verbatim>\<open>processCrawl\<close> keeps its reference to such an object after the entry is
    deleted.
  \<^item> An asynchronous function runs in turns, and the turns of the functions in
    flight interleave. \<^verbatim>\<open>startCrawl\<close>, \<^verbatim>\<open>pauseCrawl\<close>, \<^verbatim>\<open>resumeCrawl\<close> and
    \<^verbatim>\<open>updateCrawlStatus\<close> each run in one turn. An execution of \<^verbatim>\<open>processCrawl\<close>
    takes one turn for the opening of its page, one turn for each evaluation of the
    loop condition with the pass through the loop body or the exit that follows
    it, and after the loop one turn for each \<^verbatim>\<open>await\<close> of its \<^verbatim>\<open>finally\<close> block. A call
    of \<^verbatim>\<open>stopCrawl\<close> and an execution of \<^verbatim>\<open>cleanupCrawl\<close> take one turn for each of
    their \<^verbatim>\<open>await\<close>s. An operation of the store or a call to the browser takes effect
    when it is issued; the function that awaits it goes on at its next turn.
\<close>

section \<open>Recognition confidence (ocrService.js, calculateConfidence)\<close>

text \<open>
  The recognised text is a JavaScript string. It is modelled as a \<^typ>\<open>string\<close>
  whose characters are the code units below 256. Within that range the regular
  expression class \<^verbatim>\<open>\s\<close> and \<^verbatim>\<open>String.prototype.trim\<close> treat the same seven
  code units as white space: 9 to 13, 32 and 160.

  A JavaScript number is a double-precision floating-point value; it is modelled
  as the real number it denotes. Every arithmetic operation returns the exact
  result rounded to the nearest double, a tie going to the even significand:
  \<open>nearest_double x\<close> scales \<open>x\<close> to a significand between \<open>2\<^sup>5\<^sup>2\<close> and \<open>2\<^sup>5\<^sup>3\<close> and rounds
  that to an integer. The exponent is not limited; the quantities of
  \<^verbatim>\<open>calculateConfidence\<close>, for a text that a JavaScript string can hold, lie far
  inside the range of the normal doubles. Lengths and counts are integers and
  exact. \<^verbatim>\<open>Math.round\<close> rounds to the nearest integer, halves upwards, without a
  rounding error, which is \<^const>\<open>round\<close>. The accuracy of \<^verbatim>\<open>Math.log10\<close> is left to
  the implementation by the language; the function is a parameter \<open>log10\<close>.
\<close>

definition round_half_even :: "real \<Rightarrow> int" where
  "round_half_even x =
     (let f = \<lfloor>x\<rfloor>
      in if x - of_int f < 1 / 2 then f
         else if 1 / 2 < x - of_int f then f + 1
         else if even f then f else f + 1)"

definition nearest_double :: "real \<Rightarrow> real" where
  "nearest_double x =
     (if x = 0 then 0
      else (let e = \<lfloor>log 2 \<bar>x\<bar>\<rfloor>
            in of_int (round_half_even (x * 2 powr (52 - of_int e))) * 2 powr (of_int e - 52)))"

definition is_space :: "char \<Rightarrow> bool" where
  "is_space c = ((of_char c :: nat) \<in> {9, 10, 11, 12, 13, 32, 160})"

text \<open>\<^verbatim>\<open>text.trim().length === 0\<close>: every character is white space.\<close>

definition trim_is_empty :: "string \<Rightarrow> bool" where
  "trim_is_empty t = list_all is_space t"

text \<open>
  \<^verbatim>\<open>text.split(/\s+/)\<close>: the pieces between the maximal white-space runs; a run at
  the start or at the end of the text leaves an empty piece there. The second
  argument is the piece being read, the third tells whether the previous character
  belonged to a white-space run.
\<close>

fun split_pieces :: "string \<Rightarrow> string \<Rightarrow> bool \<Rightarrow> string list" where
  "split_pieces [] cur inws = [cur]"
| "split_pieces (c # cs) cur inws =
     (if is_space c
      then (if inws then split_pieces cs cur True else cur # split_pieces cs [] True)
      else split_pieces cs (cur @ [c]) False)"

definition split_ws :: "string \<Rightarrow> string list" where
  "split_ws t = split_pieces t [] False"

text \<open>\<^verbatim>\<open>text.split(/\s+/).filter(word => word.length > 0)\<close>\<close>

definition words_of :: "string \<Rightarrow> string list" where
  "words_of t = filter (\<lambda>w. length w > 0) (split_ws t)"

text \<open>\<^verbatim>\<open>text.match(/[?#~|{}\[\]]/g) || []\<close>: the characters of the text that are error glyphs.\<close>

definition is_error_char :: "char \<Rightarrow> bool" where
  "is_error_char c = (c \<in> set ''?#~|{}[]'')"

definition errorChars :: "string \<Rightarrow> string" where
  "errorChars t = filter is_error_char t"

definition wordCount :: "string \<Rightarrow> nat" where
  "wordCount t = length (words_of t)"

text \<open>\<^verbatim>\<open>words.reduce((sum, word) => sum + word.length, 0) / Math.max(1, wordCount)\<close>\<close>

definition avgWordLength :: "string \<Rightarrow> real" where
  "avgWordLength t =
     nearest_double
       (real (foldl (\<lambda>s w. s + length w) 0 (words_of t)) / real (max 1 (wordCount t)))"

definition errorRatio :: "string \<Rightarrow> real" where
  "errorRatio t = nearest_double (real (length (errorChars t)) / real (length t))"

text \<open>
  The value of \<^verbatim>\<open>confidence\<close> just before the last line of the function, after the
  three assignments to it.
\<close>

definition rawConfidence :: "(real \<Rightarrow> real) \<Rightarrow> string \<Rightarrow> real" where
  "rawConfidence log10 t =
     (let confidence =
            min 100 (nearest_double
                       (40 + nearest_double (30 * log10 (real (max 1 (wordCount t))))));
          confidence =
            nearest_double (confidence + min 20 (nearest_double (avgWordLength t * 2)));
          confidence = nearest_double (confidence - nearest_double (errorRatio t * 50))
      in confidence)"

definition calculateConfidence :: "(real \<Rightarrow> real) \<Rightarrow> string \<Rightarrow> int" where
  "calculateConfidence log10 t =
     (if t = [] \<or> trim_is_empty t then 0
      else max 0 (min 100 (round (rawConfidence log10 t))))"

text \<open>
  The reference formula in the words of the specification, over the real numbers:
  zero for empty or blank text, otherwise the base score plus the token-length
  bonus minus the glyph penalty, clamped to the interval from 0 to 100.
\<close>

definition spec_tokens :: "string \<Rightarrow> string list" where
  "spec_tokens t = words_of t"

definition spec_base :: "string \<Rightarrow> real" where
  "spec_base t = min 100 (40 + 30 * log 10 (max 1 (real (length (spec_tokens t)))))"

definition spec_avg_token_length :: "string \<Rightarrow> real" where
  "spec_avg_token_length t =
     real (sum_list (map length (spec_tokens t))) / real (length (spec_tokens t))"

definition spec_glyph_fraction :: "string \<Rightarrow> real" where
  "spec_glyph_fraction t = real (length (filter is_error_char t)) / real (length t)"

definition spec_confidence :: "string \<Rightarrow> real" where
  "spec_confidence t =
     (if list_all is_space t then 0
      else max 0 (min 100 (spec_base t + min 20 (2 * spec_avg_token_length t)
                             - 50 * spec_glyph_fraction t)))"

section \<open>Infinite scrolling (crawlerService.js, handleInfiniteScroll)\<close>

text \<open>
  An option of the loosely typed options object that holds a number is an
  \<^typ>\<open>int option\<close>; \<open>None\<close> is \<^verbatim>\<open>undefined\<close> (or \<^verbatim>\<open>NaN\<close>, for a value read
  with \<^verbatim>\<open>parseInt\<close>). \<^verbatim>\<open>a || b\<close> yields \<^verbatim>\<open>b\<close> when \<^verbatim>\<open>a\<close> is undefined or zero.
\<close>

definition js_or :: "int option \<Rightarrow> int \<Rightarrow> int" where
  "js_or a b = (case a of None \<Rightarrow> b | Some v \<Rightarrow> if v = 0 then b else v)"

text \<open>
  The page is an external collaborator. What it answers is given by a
  \<open>scroll_env\<close>, indexed by the value of \<^verbatim>\<open>scrollCount\<close> at the time of the call:
  the clock read by the loop condition, the measured \<^verbatim>\<open>document.body.scrollHeight\<close>
  (\<open>Inl\<close> when \<^verbatim>\<open>page.evaluate\<close> rejects), and the rejection message, if any, of the
  scroll to the bottom, of the wait and of the final scroll to the top.
\<close>

record scroll_env =
  startTime :: int
  clock :: "nat \<Rightarrow> int"
  scrollHeight :: "nat \<Rightarrow> string + int"
  scrollDown :: "nat \<Rightarrow> string option"
  waitForTimeout :: "nat \<Rightarrow> string option"
  scrollUp :: "string option"
  SCROLL_TIMEOUT_MS :: "int option"

datatype page_call = GetScrollHeight | ScrollToBottom | WaitForTimeout | ScrollToTop

text \<open>
  The \<^verbatim>\<open>while\<close> loop, started with the given \<^verbatim>\<open>previousHeight\<close> and
  \<^verbatim>\<open>scrollCount\<close>. It returns the calls made to the page, the final
  \<^verbatim>\<open>scrollCount\<close> and the message of the rejection that ended it, if one did.
\<close>

function scroll_loop ::
  "scroll_env \<Rightarrow> int \<Rightarrow> int \<Rightarrow> int \<Rightarrow> nat \<Rightarrow> page_call list \<times> nat \<times> string option" where
  "scroll_loop e maxScrolls scrollTimeout previousHeight scrollCount =
     (if int scrollCount < maxScrolls \<and> clock e scrollCount - startTime e < scrollTimeout
      then (case scrollHeight e scrollCount of
              Inl msg \<Rightarrow> ([GetScrollHeight], scrollCount, Some msg)
            | Inr currentHeight \<Rightarrow>
                if currentHeight = previousHeight then ([GetScrollHeight], scrollCount, None)
                else (case scrollDown e scrollCount of
                        Some msg \<Rightarrow> ([GetScrollHeight, ScrollToBottom], scrollCount, Some msg)
                      | None \<Rightarrow>
                         (case waitForTimeout e scrollCount of
                            Some msg \<Rightarrow>
                              ([GetScrollHeight, ScrollToBottom, WaitForTimeout], scrollCount, Some msg)
                          | None \<Rightarrow>
                              (case scroll_loop e maxScrolls scrollTimeout currentHeight
                                      (Suc scrollCount) of
                                 (calls, n, thrown) \<Rightarrow>
                                   ([GetScrollHeight, ScrollToBottom, WaitForTimeout] @ calls,
                                    n, thrown)))))
      else ([], scrollCount, None))"
  by pat_completeness auto
termination
  by (relation "measure (\<lambda>(e, m, t, p, k). nat (m - int k))") auto

text \<open>
  The options object of a crawl. A flag is a \<^typ>\<open>bool option\<close>, \<open>None\<close> when the
  property is absent. The rate limit, the navigation timeout, the user agent and the
  viewport only parameterise timers and the browser and are left out.
\<close>

record options =
  opt_scrollTimeout :: "int option"
  opt_maxScrolls :: "int option"
  opt_handleInfiniteScroll :: "bool option"
  opt_performOcr :: "bool option"
  opt_skipOcr :: "bool option"
  opt_useAI :: "bool option"

record scroll_result =
  calls :: "page_call list"
  scrolls :: nat
  thrown :: "string option"

definition effective_scrollTimeout :: "scroll_env \<Rightarrow> options \<Rightarrow> int" where
  "effective_scrollTimeout e opts =
     js_or (opt_scrollTimeout opts) (js_or (SCROLL_TIMEOUT_MS e) 30000)"

definition effective_maxScrolls :: "options \<Rightarrow> int" where
  "effective_maxScrolls opts = js_or (opt_maxScrolls opts) 10"

text \<open>
  The whole handler. A rejection inside the loop leaves the function at once, so the
  scroll back to the top is made only when the loop ends normally.
\<close>

definition handleInfiniteScroll :: "scroll_env \<Rightarrow> options \<Rightarrow> scroll_result" where
  "handleInfiniteScroll e opts =
     (case scroll_loop e (effective_maxScrolls opts) (effective_scrollTimeout e opts) 0 0 of
        (cs, n, Some msg) \<Rightarrow> \<lparr>calls = cs, scrolls = n, thrown = Some msg\<rparr>
      | (cs, n, None) \<Rightarrow> \<lparr>calls = cs @ [ScrollToTop], scrolls = n, thrown = scrollUp e\<rparr>)"

section \<open>Recognition of a screenshot (ocrService.js, processImage)\<close>

text \<open>
  The recognition engine, the file system and the result store behind
  \<^verbatim>\<open>processImage\<close> are external. An \<open>ocr_env\<close> gives their answers for one
  screenshot: \<open>recognize\<close> is \<open>Inr\<close> the recognised text, or \<open>Inl\<close> the message of
  whatever was thrown inside the guarded block of \<^verbatim>\<open>processImage\<close>; \<open>broadcast\<close> is
  the message thrown by the event broadcaster when the crawler announces the
  screenshot, if it throws; \<open>uuid\<close> is the generated analysis id; \<open>Math_log10\<close> is
  the \<^verbatim>\<open>Math.log10\<close> of the JavaScript engine.
\<close>

record ocr_env =
  broadcast :: "string option"
  recognize :: "string + string"
  uuid :: string
  Math_log10 :: "real \<Rightarrow> real"

record ocr_result =
  analysisId :: string
  ocr_text :: string
  confidence :: int
  processed :: bool
  ocr_error :: "string option"

definition processImage :: "ocr_env \<Rightarrow> ocr_result" where
  "processImage e =
     (case recognize e of
        Inr t \<Rightarrow> \<lparr>analysisId = uuid e, ocr_text = t, confidence = calculateConfidence (Math_log10 e) t,
                  processed = True, ocr_error = None\<rparr>
      | Inl msg \<Rightarrow> \<lparr>analysisId = uuid e, ocr_text = [], confidence = 0,
                    processed = False, ocr_error = Some msg\<rparr>)"

text \<open>A string-valued property used as a condition: absent and empty are false.\<close>

definition truthy :: "string option \<Rightarrow> bool" where
  "truthy m = (case m of None \<Rightarrow> False | Some x \<Rightarrow> x \<noteq> [])"

section \<open>Crawl jobs (crawlerService.js)\<close>

subsection \<open>State\<close>

type_synonym url = string
type_synonym crawlId = string

datatype status = Pending | Running | Paused | Completed | Stopped | Failed

text \<open>
  An entry of \<^verbatim>\<open>crawlData.errors\<close>: the loop records \<^verbatim>\<open>{url, error, timestamp}\<close>,
  \<^verbatim>\<open>updateCrawlStatus\<close> records \<^verbatim>\<open>{message, timestamp}\<close>.
\<close>

datatype mem_error = UrlError url string int | StatusError string int

text \<open>
  The value of an entry of the map \<^verbatim>\<open>activeCrawls\<close>. The browser and its context
  are identified with the object itself. \<open>cd_visitedUrls\<close> is the property
  \<^verbatim>\<open>visitedUrls\<close> that \<^verbatim>\<open>getCrawlStatus\<close> reads; \<open>None\<close> is \<^verbatim>\<open>undefined\<close>.
\<close>

record crawlData =
  cd_status :: status
  cd_url :: url
  cd_depth :: int
  cd_options :: options
  cd_screenshotDir :: string
  cd_pages :: "nat list"
  cd_errors :: "mem_error list"
  cd_capturedScreenshots :: "string list"
  cd_startTime :: int
  cd_visitedUrls :: "url list option"

record db_error =
  de_url :: url
  de_message :: string
  de_timestamp :: int

record db_ocr =
  do_screenshotPath :: string
  do_ocrResultId :: string
  do_confidence :: int
  do_timestamp :: int

text \<open>A document of the collection \<^verbatim>\<open>CrawlJob\<close> of the durable store.\<close>

record crawlJob =
  j_url :: url
  j_depth :: int
  j_status :: status
  j_options :: options
  j_screenshotDir :: string
  j_pagesProcessed :: nat
  j_screenshotCount :: nat
  j_errorCount :: nat
  j_visitedUrls :: "url list"
  j_errors :: "db_error list"
  j_ocrResults :: "db_ocr list"
  j_duration :: int
  j_errorMessage :: "string option"
  j_startedAt :: int
  j_completedAt :: "int option"
  j_pausedAt :: "int option"
  j_resumedAt :: "int option"
  j_stoppedAt :: "int option"
  j_failedAt :: "int option"

text \<open>Every call made to the browser engine, the recognition service and the advisory service.\<close>

datatype ext_call =
    Goto nat url
  | WaitForLoadState nat
  | Scrolling nat page_call
  | Screenshot nat string
  | RecognizeImage string url
  | ExtractLinks nat
  | PageTitle nat
  | AnalyzePage url
  | ClosePage nat
  | CloseContext nat
  | CloseBrowser nat

text \<open>
  \<^verbatim>\<open>cleanupCrawl\<close> awaits the closing of each page, of the context and of the browser
  and the update of the store. An execution of it that has found the job stands
  at one of these: at the closing of the page with the given index in
  \<^verbatim>\<open>crawlData.pages\<close>, of the context, of the browser, or at the update.
\<close>

datatype cleanup_pc = ClosingPage nat | ClosingContext | ClosingBrowser | SavingStatistics

text \<open>
  A call of \<^verbatim>\<open>stopCrawl\<close>: its argument, and where it stands: at the update of the
  store (line 718), inside \<^verbatim>\<open>cleanupCrawl\<close> (line 724) with the reference that
  \<^verbatim>\<open>cleanupCrawl\<close> holds, or returned with its result.
\<close>

datatype stop_pc = StopUpdating | StopCleaning nat cleanup_pc | StopReturned bool

record stop_call =
  s_crawlId :: crawlId
  s_at :: stop_pc

text \<open>
  Everything outside the executions of \<^verbatim>\<open>processCrawl\<close>. \<^verbatim>\<open>activeCrawls\<close> maps a crawl
  id to a reference; \<open>heap\<close> gives the object at a reference, which a crawl function
  that holds the reference still reads and writes after the entry has been deleted
  from \<^verbatim>\<open>activeCrawls\<close>. \<open>now\<close> is the clock, \<open>fresh\<close> the next unused identity of an
  object or a page, \<open>db\<close> the durable store, \<open>ext_calls\<close> the calls made so far,
  \<open>stopCalls\<close> the calls of \<^verbatim>\<open>stopCrawl\<close> made so far. The durable store is part of
  the state and its operations do not fail.
\<close>

record world =
  now :: int
  fresh :: nat
  heap :: "nat \<Rightarrow> crawlData"
  activeCrawls :: "crawlId \<rightharpoonup> nat"
  db :: "crawlId \<rightharpoonup> crawlJob"
  ext_calls :: "ext_call list"
  stopCalls :: "stop_call list"

definition updateOne :: "world \<Rightarrow> crawlId \<Rightarrow> (crawlJob \<Rightarrow> crawlJob) \<Rightarrow> world" where
  "updateOne w cid f =
     (case db w cid of None \<Rightarrow> w | Some j \<Rightarrow> w\<lparr>db := (db w)(cid \<mapsto> f j)\<rparr>)"

definition obj_update :: "world \<Rightarrow> nat \<Rightarrow> (crawlData \<Rightarrow> crawlData) \<Rightarrow> world" where
  "obj_update w r f = w\<lparr>heap := (heap w)(r := f (heap w r))\<rparr>"

definition log_calls :: "world \<Rightarrow> ext_call list \<Rightarrow> world" where
  "log_calls w cs = w\<lparr>ext_calls := ext_calls w @ cs\<rparr>"

text \<open>The object that \<^verbatim>\<open>activeCrawls.get(crawlId)\<close> returns.\<close>

definition activeCrawl :: "world \<Rightarrow> crawlId \<Rightarrow> (nat \<times> crawlData) option" where
  "activeCrawl w cid =
     (case activeCrawls w cid of None \<Rightarrow> None | Some r \<Rightarrow> Some (r, heap w r))"

subsection \<open>updateCrawlStatus and cleanupCrawl\<close>

definition updateData :: "int \<Rightarrow> status \<Rightarrow> string option \<Rightarrow> crawlJob \<Rightarrow> crawlJob" where
  "updateData t s errorMessage j =
     (let j1 = j\<lparr>j_status := s\<rparr>;
          j2 = (if s = Completed then j1\<lparr>j_completedAt := Some t\<rparr> else j1);
          j3 = (if s = Failed then j2\<lparr>j_failedAt := Some t, j_errorMessage := errorMessage\<rparr>
                else j2);
          j4 = (if s = Paused then j3\<lparr>j_pausedAt := Some t\<rparr> else j3);
          j5 = (if s = Stopped then j4\<lparr>j_stoppedAt := Some t\<rparr> else j4)
      in if s = Completed \<or> s = Failed \<or> s = Stopped
         then j5\<lparr>j_duration := t - j_startedAt j\<rparr> else j5)"

definition updateCrawlStatus :: "world \<Rightarrow> crawlId \<Rightarrow> status \<Rightarrow> string option \<Rightarrow> world" where
  "updateCrawlStatus w cid s errorMessage =
     (let w1 = updateOne w cid (updateData (now w) s errorMessage)
      in case activeCrawl w1 cid of
           None \<Rightarrow> w1
         | Some (r, cd) \<Rightarrow>
             obj_update w1 r (\<lambda>cd.
               cd\<lparr>cd_status := s,
                  cd_errors := cd_errors cd @
                    (case errorMessage of
                       None \<Rightarrow> []
                     | Some m \<Rightarrow> if m = [] then [] else [StatusError m (now w)])\<rparr>))"

text \<open>
  The \<^verbatim>\<open>for\<close> loop over \<^verbatim>\<open>crawlData.pages\<close> (a \<^verbatim>\<open>Set\<close>, iterated in insertion order)
  at the page of index \<open>i\<close>: the page is closed, or after the last page the
  context. A rejected \<^verbatim>\<open>close\<close> is caught and logged, so none of them throws.
\<close>

definition closePages :: "world \<Rightarrow> nat \<Rightarrow> nat \<Rightarrow> world \<times> cleanup_pc" where
  "closePages w r i =
     (if i < length (cd_pages (heap w r))
      then (log_calls w [ClosePage (cd_pages (heap w r) ! i)], ClosingPage i)
      else (log_calls w [CloseContext r], ClosingContext))"

text \<open>
  \<^verbatim>\<open>cleanupCrawl(crawlId)\<close> up to its first \<^verbatim>\<open>await\<close>, lines 537 to 547. The result
  is \<open>None\<close> when the job is not in \<^verbatim>\<open>activeCrawls\<close> and the function has returned,
  and otherwise the reference it holds and the \<^verbatim>\<open>await\<close> at which it stands.
\<close>

definition cleanupCrawl :: "world \<Rightarrow> crawlId \<Rightarrow> world \<times> (nat \<times> cleanup_pc) option" where
  "cleanupCrawl w cid =
     (case activeCrawl w cid of
        None \<Rightarrow> (w, None)
      | Some (r, cd) \<Rightarrow> (case closePages w r 0 of (w1, pc) \<Rightarrow> (w1, Some (r, pc))))"

text \<open>
  The next turn of an execution of \<^verbatim>\<open>cleanupCrawl\<close> that holds the reference \<open>r\<close> and
  stands at \<open>pc\<close>: after the pages the context is closed, then the browser; then the
  statistics are computed from the object and written to the store (lines 555 to
  567); and only then the job is removed from \<^verbatim>\<open>activeCrawls\<close> (line 570) and the
  function returns.
\<close>

definition cleanupCrawl_resume ::
  "world \<Rightarrow> crawlId \<Rightarrow> nat \<Rightarrow> cleanup_pc \<Rightarrow> world \<times> (nat \<times> cleanup_pc) option" where
  "cleanupCrawl_resume w cid r pc =
     (case pc of
        ClosingPage i \<Rightarrow> (case closePages w r (Suc i) of (w1, pc1) \<Rightarrow> (w1, Some (r, pc1)))
      | ClosingContext \<Rightarrow> (log_calls w [CloseBrowser r], Some (r, ClosingBrowser))
      | ClosingBrowser \<Rightarrow>
          (updateOne w cid (\<lambda>j.
             j\<lparr>j_duration := now w - cd_startTime (heap w r),
               j_screenshotCount := length (cd_capturedScreenshots (heap w r)),
               j_errorCount := length (cd_errors (heap w r))\<rparr>),
           Some (r, SavingStatistics))
      | SavingStatistics \<Rightarrow> (w\<lparr>activeCrawls := (activeCrawls w)(cid := None)\<rparr>, None))"

subsection \<open>One execution of processCrawl\<close>

text \<open>
  \<^verbatim>\<open>processCrawl\<close> is an asynchronous function. An execution of it is a \<open>proc\<close>: its
  arguments, the reference \<^verbatim>\<open>crawlData\<close> it looked up when it was called, its local
  variables \<^verbatim>\<open>visitedUrls\<close> (a \<^verbatim>\<open>Set\<close>, kept in insertion order) and \<^verbatim>\<open>urlQueue\<close>, the
  identity of its page, and where it stands: waiting for \<^verbatim>\<open>context.newPage()\<close>, at
  the head of the \<^verbatim>\<open>while\<close> loop, waiting for \<^verbatim>\<open>updateCrawlStatus\<close> (line 280, or line
  284 with the message of the exception that the \<^verbatim>\<open>catch\<close> block will throw again),
  inside the \<^verbatim>\<open>cleanupCrawl\<close> of the \<^verbatim>\<open>finally\<close> block (line 288, with the reference
  that \<^verbatim>\<open>cleanupCrawl\<close> holds and the exception that is pending), or returned.
\<close>

datatype phase =
    AwaitingPage
  | InLoop
  | StatusUpdated "string option"
  | CleaningUp nat cleanup_pc "string option"
  | Returned

record proc =
  p_crawlId :: crawlId
  p_crawlData :: nat
  p_startUrl :: url
  p_maxDepth :: int
  p_options :: options
  p_page :: nat
  p_visitedUrls :: "url list"
  p_urlQueue :: "(url \<times> int) list"
  p_phase :: phase

text \<open>\<^verbatim>\<open>Set.prototype.add\<close> and \<^verbatim>\<open>new Set(array)\<close>, in insertion order.\<close>

definition set_add :: "'a list \<Rightarrow> 'a \<Rightarrow> 'a list" where
  "set_add xs x = (if x \<in> set xs then xs else xs @ [x])"

definition new_Set :: "'a list \<Rightarrow> 'a list" where
  "new_Set xs = foldl set_add [] xs"

text \<open>
  The answers of the collaborators during one turn of the execution: the rejection
  message of \<^verbatim>\<open>context.newPage()\<close>, of \<^verbatim>\<open>page.goto\<close> and of
  \<^verbatim>\<open>page.waitForLoadState\<close>, if any; the page during scrolling; the file name made
  from the clock for the screenshot and the rejection message of \<^verbatim>\<open>page.screenshot\<close>,
  if any; the recognition; the anchors
  that \<^verbatim>\<open>page.evaluate\<close> returns to \<^verbatim>\<open>extractLinks\<close>, already absolute and of the same
  origin; the page title; and the \<^verbatim>\<open>priorityUrls\<close> of the advisory analysis, \<open>None\<close>
  when the analysis has none.
\<close>

record tick_env =
  e_newPage :: "string option"
  e_goto :: "string option"
  e_loadState :: "string option"
  e_scroll :: scroll_env
  e_screenshotName :: string
  e_screenshot :: "string option"
  e_ocr :: ocr_env
  e_links :: "string + url list"
  e_title :: "string + string"
  e_priorityUrls :: "url list option"

type_synonym crawl_state = "world \<times> proc"

text \<open>
  A stage of the \<^verbatim>\<open>try\<close> block for one URL returns the state it leaves and the
  message of the exception it throws, if it throws. \<open>andThen\<close> runs the next stage
  only after a stage that did not throw; what a throwing stage did before stays done.
\<close>

type_synonym stage = "crawl_state \<Rightarrow> crawl_state \<times> string option"

definition andThen :: "stage \<Rightarrow> stage \<Rightarrow> stage" where
  "andThen f g st = (case f st of (st1, Some msg) \<Rightarrow> (st1, Some msg) | (st1, None) \<Rightarrow> g st1)"

definition navigateStage :: "tick_env \<Rightarrow> url \<Rightarrow> stage" where
  "navigateStage e u st =
     (case st of (w, p) \<Rightarrow>
        (let w1 = log_calls w [Goto (p_page p) u]
         in case e_goto e of
              Some msg \<Rightarrow> ((w1, p), Some msg)
            | None \<Rightarrow> ((log_calls w1 [WaitForLoadState (p_page p)], p), e_loadState e)))"

definition scrollStage :: "tick_env \<Rightarrow> stage" where
  "scrollStage e st =
     (case st of (w, p) \<Rightarrow>
        if opt_handleInfiniteScroll (p_options p) \<noteq> Some False
        then (let r = handleInfiniteScroll (e_scroll e) (p_options p)
              in ((log_calls w (map (Scrolling (p_page p)) (calls r)), p), thrown r))
        else ((w, p), None))"

text \<open>
  \<^verbatim>\<open>processScreenshotWithOCR\<close>. It never throws. Its result is \<open>None\<close> for \<^verbatim>\<open>null\<close>.
  The durable store does not fail, so the inner \<^verbatim>\<open>catch\<close> is not reached.
\<close>

definition processScreenshotWithOCR ::
  "ocr_env \<Rightarrow> world \<Rightarrow> crawlId \<Rightarrow> string \<Rightarrow> url \<Rightarrow> world \<times> ocr_result option" where
  "processScreenshotWithOCR e w cid screenshotPath u =
     (case broadcast e of
        Some msg \<Rightarrow>
          (w, Some \<lparr>analysisId = uuid e, ocr_text = [], confidence = 0, processed = False,
                    ocr_error = Some msg\<rparr>)
      | None \<Rightarrow>
          (let w1 = log_calls w [RecognizeImage screenshotPath u];
               ocrResult = processImage e
           in if truthy (ocr_error ocrResult) then (w1, None)
              else (updateOne w1 cid (\<lambda>j.
                      j\<lparr>j_ocrResults := j_ocrResults j @
                          [\<lparr>do_screenshotPath = screenshotPath,
                            do_ocrResultId = analysisId ocrResult,
                            do_confidence = confidence ocrResult,
                            do_timestamp = now w\<rparr>]\<rparr>),
                    Some ocrResult)))"

definition captureStage :: "tick_env \<Rightarrow> url \<Rightarrow> stage" where
  "captureStage e u st =
     (case st of (w, p) \<Rightarrow>
        (let screenshotPath =
               cd_screenshotDir (heap w (p_crawlData p)) @ ''/'' @ e_screenshotName e;
             w1 = log_calls w [Screenshot (p_page p) screenshotPath]
         in case e_screenshot e of
              Some msg \<Rightarrow> ((w1, p), Some msg)
            | None \<Rightarrow>
                (let w2 = obj_update w1 (p_crawlData p) (\<lambda>cd.
                            cd\<lparr>cd_capturedScreenshots :=
                                 cd_capturedScreenshots cd @ [screenshotPath]\<rparr>)
                 in if opt_performOcr (p_options p) \<noteq> Some False
                       \<and> opt_skipOcr (p_options p) \<noteq> Some True
                    then ((fst (processScreenshotWithOCR (e_ocr e) w2 (p_crawlId p)
                                  screenshotPath u), p), None)
                    else ((w2, p), None))))"

text \<open>\<^verbatim>\<open>extractLinks\<close>: the anchors without repetitions.\<close>

definition extractLinks :: "tick_env \<Rightarrow> string + url list" where
  "extractLinks e = (case e_links e of Inl msg \<Rightarrow> Inl msg | Inr ls \<Rightarrow> Inr (new_Set ls))"

text \<open>Lines 223 to 230: every extracted link is pushed at the end of the queue.\<close>

definition linkStage :: "tick_env \<Rightarrow> int \<Rightarrow> stage" where
  "linkStage e depth st =
     (case st of (w, p) \<Rightarrow>
        if depth < p_maxDepth p
        then (let w1 = log_calls w [ExtractLinks (p_page p)]
              in case extractLinks e of
                   Inl msg \<Rightarrow> ((w1, p), Some msg)
                 | Inr links \<Rightarrow>
                     ((w1, p\<lparr>p_urlQueue := p_urlQueue p @ map (\<lambda>l. (l, depth + 1)) links\<rparr>),
                      None))
        else ((w, p), None))"

text \<open>Lines 233 to 239: the store appends the URL and counts the page.\<close>

definition recordStage :: "url \<Rightarrow> stage" where
  "recordStage u st =
     (case st of (w, p) \<Rightarrow>
        ((updateOne w (p_crawlId p) (\<lambda>j.
            j\<lparr>j_visitedUrls := j_visitedUrls j @ [u],
              j_pagesProcessed := j_pagesProcessed j + 1\<rparr>), p), None))"

text \<open>
  Lines 253 to 260: each suggested URL that is not in \<^verbatim>\<open>visitedUrls\<close> is put at the
  head of the queue, one after the other.
\<close>

definition unshiftPriority :: "url list \<Rightarrow> int \<Rightarrow> (url \<times> int) list \<Rightarrow> url list \<Rightarrow> (url \<times> int) list" where
  "unshiftPriority visited depth q priorityUrls =
     foldl (\<lambda>q priorityUrl. if priorityUrl \<in> set visited then q
                             else (priorityUrl, depth + 1) # q) q priorityUrls"

definition adviceStage :: "tick_env \<Rightarrow> url \<Rightarrow> int \<Rightarrow> stage" where
  "adviceStage e u depth st =
     (case st of (w, p) \<Rightarrow>
        if opt_useAI (p_options p) \<noteq> Some False
        then (let w1 = log_calls w [PageTitle (p_page p)]
              in case e_title e of
                   Inl msg \<Rightarrow> ((w1, p), Some msg)
                 | Inr title \<Rightarrow>
                     (let w2 = log_calls w1 [AnalyzePage u]
                      in case e_priorityUrls e of
                           None \<Rightarrow> ((w2, p), None)
                         | Some priorityUrls \<Rightarrow>
                             ((w2, p\<lparr>p_urlQueue := unshiftPriority (p_visitedUrls p) depth
                                                     (p_urlQueue p) priorityUrls\<rparr>), None)))
        else ((w, p), None))"

text \<open>The \<^verbatim>\<open>try\<close> block of the loop body, lines 177 to 264.\<close>

definition processUrl :: "tick_env \<Rightarrow> url \<Rightarrow> int \<Rightarrow> stage" where
  "processUrl e u depth =
     andThen (navigateStage e u)
       (andThen (scrollStage e)
         (andThen (captureStage e u)
           (andThen (linkStage e depth)
             (andThen (recordStage u) (adviceStage e u depth)))))"

text \<open>The \<^verbatim>\<open>catch\<close> block of the loop body, lines 265 to 276.\<close>

definition recordError :: "world \<Rightarrow> proc \<Rightarrow> url \<Rightarrow> string \<Rightarrow> world" where
  "recordError w p u msg =
     (let w1 = obj_update w (p_crawlData p) (\<lambda>cd.
                 cd\<lparr>cd_errors := cd_errors cd @ [UrlError u msg (now w)]\<rparr>)
      in updateOne w1 (p_crawlId p) (\<lambda>j.
           j\<lparr>j_errors := j_errors j @
               [\<lparr>de_url = u, de_message = msg, de_timestamp = now w\<rparr>]\<rparr>))"

text \<open>The condition of the \<^verbatim>\<open>while\<close> loop, line 168.\<close>

definition loopCondition :: "crawl_state \<Rightarrow> bool" where
  "loopCondition st =
     (case st of (w, p) \<Rightarrow>
        p_urlQueue p \<noteq> [] \<and> cd_status (heap w (p_crawlData p)) = Running)"

text \<open>One pass through the loop body, lines 169 to 276.\<close>

definition loopBody :: "tick_env \<Rightarrow> crawl_state \<Rightarrow> crawl_state" where
  "loopBody e st =
     (case st of (w, p) \<Rightarrow>
        (case p_urlQueue p of
           [] \<Rightarrow> (w, p)
         | (u, depth) # rest \<Rightarrow>
             (let p1 = p\<lparr>p_urlQueue := rest\<rparr>
              in if u \<in> set (p_visitedUrls p1) \<or> depth > p_maxDepth p1 then (w, p1)
                 else (case processUrl e u depth
                              (w, p1\<lparr>p_visitedUrls := set_add (p_visitedUrls p1) u\<rparr>) of
                         (st1, None) \<Rightarrow> st1
                       | ((w1, p2), Some msg) \<Rightarrow> (recordError w1 p2 u msg, p2)))))"

text \<open>After the loop, lines 279 and 280: the status is set to \<^verbatim>\<open>completed\<close>.\<close>

definition afterLoop :: "crawl_state \<Rightarrow> crawl_state" where
  "afterLoop st =
     (case st of (w, p) \<Rightarrow>
        (updateCrawlStatus w (p_crawlId p) Completed None, p\<lparr>p_phase := StatusUpdated None\<rparr>))"

text \<open>
  \<^verbatim>\<open>context.newPage()\<close> settles, lines 157 and 158. When it rejects, the outer
  \<^verbatim>\<open>catch\<close> sets the status to \<^verbatim>\<open>failed\<close> (lines 283 and 284).
\<close>

definition pageSettled :: "tick_env \<Rightarrow> crawl_state \<Rightarrow> crawl_state" where
  "pageSettled e st =
     (case st of (w, p) \<Rightarrow>
        (case e_newPage e of
           None \<Rightarrow>
             (obj_update w (p_crawlData p) (\<lambda>cd. cd\<lparr>cd_pages := set_add (cd_pages cd) (p_page p)\<rparr>),
              p\<lparr>p_phase := InLoop\<rparr>)
         | Some msg \<Rightarrow>
             (updateCrawlStatus w (p_crawlId p) Failed (Some msg),
              p\<lparr>p_phase := StatusUpdated (Some msg)\<rparr>)))"

text \<open>
  The end of the \<^verbatim>\<open>finally\<close> block: the function returns, or the pending exception
  leaves it and the \<^verbatim>\<open>catch\<close> of the caller sets the status to \<^verbatim>\<open>failed\<close>.
\<close>

definition leave :: "string option \<Rightarrow> crawl_state \<Rightarrow> crawl_state" where
  "leave pending st =
     (case st of (w, p) \<Rightarrow>
        ((case pending of
            None \<Rightarrow> w
          | Some msg \<Rightarrow> updateCrawlStatus w (p_crawlId p) Failed (Some msg)),
         p\<lparr>p_phase := Returned\<rparr>))"

text \<open>
  The \<^verbatim>\<open>cleanupCrawl\<close> of the \<^verbatim>\<open>finally\<close> block, line 288: the turn at which it is
  called, and the turns at which it goes on.
\<close>

definition cleaning :: "string option \<Rightarrow> world \<times> (nat \<times> cleanup_pc) option \<Rightarrow> proc \<Rightarrow> crawl_state" where
  "cleaning pending res p =
     (case res of
        (w1, None) \<Rightarrow> leave pending (w1, p)
      | (w1, Some (r, pc)) \<Rightarrow> (w1, p\<lparr>p_phase := CleaningUp r pc pending\<rparr>))"

text \<open>
  One turn of an execution: the page settles; the loop condition is evaluated and
  either one URL is taken from the queue or the loop is left; the \<^verbatim>\<open>finally\<close> block
  calls \<^verbatim>\<open>cleanupCrawl\<close>; or \<^verbatim>\<open>cleanupCrawl\<close> goes on.
\<close>

definition tick :: "tick_env \<Rightarrow> crawl_state \<Rightarrow> crawl_state" where
  "tick e st =
     (case p_phase (snd st) of
        AwaitingPage \<Rightarrow> pageSettled e st
      | InLoop \<Rightarrow> if loopCondition st then loopBody e st else afterLoop st
      | StatusUpdated pending \<Rightarrow>
          cleaning pending (cleanupCrawl (fst st) (p_crawlId (snd st))) (snd st)
      | CleaningUp r pc pending \<Rightarrow>
          cleaning pending (cleanupCrawl_resume (fst st) (p_crawlId (snd st)) r pc) (snd st)
      | Returned \<Rightarrow> st)"

text \<open>
  The call \<^verbatim>\<open>processCrawl(crawlId, url, depth, options)\<close> up to its first \<^verbatim>\<open>await\<close>,
  lines 144 to 157. When the job is not in \<^verbatim>\<open>activeCrawls\<close> the call throws and the
  \<^verbatim>\<open>catch\<close> of the caller sets the status.
\<close>

definition processCrawl :: "world \<Rightarrow> crawlId \<Rightarrow> url \<Rightarrow> int \<Rightarrow> options \<Rightarrow> world \<times> proc option" where
  "processCrawl w cid startUrl maxDepth opts =
     (case activeCrawl w cid of
        None \<Rightarrow>
          (updateCrawlStatus w cid Failed
             (Some (''Crawl job '' @ cid @ '' not found in active crawls'')), None)
      | Some (r, cd) \<Rightarrow>
          (w\<lparr>fresh := fresh w + 1\<rparr>,
           Some \<lparr>p_crawlId = cid, p_crawlData = r, p_startUrl = startUrl,
                 p_maxDepth = maxDepth, p_options = opts, p_page = fresh w,
                 p_visitedUrls = [], p_urlQueue = [(startUrl, 0)],
                 p_phase = AwaitingPage\<rparr>))"

subsection \<open>The exported operations\<close>

text \<open>
  \<^verbatim>\<open>startCrawl\<close>. Saving the new document fails when the id is taken or when the
  schema rejects it (the depth has minimum 1, the URL is required); launching the
  browser or creating its context may reject with \<open>launch\<close>. The result is \<open>Inl\<close>
  the message that is thrown, or \<open>Inr\<close> the returned id and status.
\<close>

definition startCrawl ::
  "world \<Rightarrow> crawlId \<Rightarrow> url \<Rightarrow> int \<Rightarrow> options \<Rightarrow> string option
     \<Rightarrow> world \<times> proc option \<times> (string + crawlId \<times> status)" where
  "startCrawl w cid u depth opts launch =
     (let screenshotDir = ''data/screenshots/'' @ cid
      in if db w cid \<noteq> None then (w, None, Inl ''duplicate key'')
         else if depth < 1 \<or> u = [] then (w, None, Inl ''CrawlJob validation failed'')
         else
           (let w1 = w\<lparr>db := (db w)(cid \<mapsto>
                       \<lparr>j_url = u, j_depth = depth, j_status = Running, j_options = opts,
                        j_screenshotDir = screenshotDir, j_pagesProcessed = 0,
                        j_screenshotCount = 0, j_errorCount = 0, j_visitedUrls = [],
                        j_errors = [], j_ocrResults = [], j_duration = 0,
                        j_errorMessage = None, j_startedAt = now w, j_completedAt = None,
                        j_pausedAt = None, j_resumedAt = None, j_stoppedAt = None,
                        j_failedAt = None\<rparr>)\<rparr>
            in case launch of
                 Some msg \<Rightarrow> (w1, None, Inl msg)
               | None \<Rightarrow>
                   (let r = fresh w1;
                        w2 = w1\<lparr>fresh := r + 1,
                                heap := (heap w1)(r :=
                                  \<lparr>cd_status = Running, cd_url = u, cd_depth = depth,
                                   cd_options = opts, cd_screenshotDir = screenshotDir,
                                   cd_pages = [], cd_errors = [], cd_capturedScreenshots = [],
                                   cd_startTime = now w, cd_visitedUrls = None\<rparr>),
                                activeCrawls := (activeCrawls w1)(cid \<mapsto> r)\<rparr>
                    in case processCrawl w2 cid u depth opts of
                         (w3, po) \<Rightarrow> (w3, po, Inr (cid, Running)))))"

definition pauseCrawl :: "world \<Rightarrow> crawlId \<Rightarrow> world \<times> bool" where
  "pauseCrawl w cid =
     (case activeCrawl w cid of
        None \<Rightarrow> (w, False)
      | Some (r, cd) \<Rightarrow>
          if cd_status cd \<noteq> Running then (w, False)
          else (updateOne (obj_update w r (\<lambda>cd. cd\<lparr>cd_status := Paused\<rparr>)) cid
                  (\<lambda>j. j\<lparr>j_status := Paused, j_pausedAt := Some (now w)\<rparr>), True))"

definition resumeCrawl :: "world \<Rightarrow> crawlId \<Rightarrow> world \<times> proc option \<times> bool" where
  "resumeCrawl w cid =
     (case activeCrawl w cid of
        None \<Rightarrow> (w, None, False)
      | Some (r, cd) \<Rightarrow>
          if cd_status cd \<noteq> Paused then (w, None, False)
          else (let w1 = updateOne (obj_update w r (\<lambda>cd. cd\<lparr>cd_status := Running\<rparr>)) cid
                           (\<lambda>j. j\<lparr>j_status := Running, j_resumedAt := Some (now w)\<rparr>)
                in case processCrawl w1 cid (cd_url cd) (cd_depth cd) (cd_options cd) of
                     (w2, po) \<Rightarrow> (w2, po, True)))"

text \<open>
  \<^verbatim>\<open>stopCrawl(crawlId)\<close> up to its first \<^verbatim>\<open>await\<close>, lines 708 to 718: it returns false
  when the job is not in \<^verbatim>\<open>activeCrawls\<close>, and otherwise sets the status and issues
  the update of the store.
\<close>

definition stopCrawl :: "world \<Rightarrow> crawlId \<Rightarrow> world \<times> stop_pc" where
  "stopCrawl w cid =
     (case activeCrawl w cid of
        None \<Rightarrow> (w, StopReturned False)
      | Some (r, cd) \<Rightarrow>
          (updateOne (obj_update w r (\<lambda>cd. cd\<lparr>cd_status := Stopped\<rparr>)) cid
             (\<lambda>j. j\<lparr>j_status := Stopped, j_stoppedAt := Some (now w)\<rparr>),
           StopUpdating))"

text \<open>
  The next turn of a call of \<^verbatim>\<open>stopCrawl\<close>, lines 724 to 727: it calls \<^verbatim>\<open>cleanupCrawl\<close>,
  or \<^verbatim>\<open>cleanupCrawl\<close> goes on; when \<^verbatim>\<open>cleanupCrawl\<close> has returned it returns true.
\<close>

definition stopping :: "world \<times> (nat \<times> cleanup_pc) option \<Rightarrow> world \<times> stop_pc" where
  "stopping res =
     (case res of
        (w1, None) \<Rightarrow> (w1, StopReturned True)
      | (w1, Some (r, pc)) \<Rightarrow> (w1, StopCleaning r pc))"

definition stopCrawl_resume :: "world \<Rightarrow> crawlId \<Rightarrow> stop_pc \<Rightarrow> world \<times> stop_pc" where
  "stopCrawl_resume w cid pos =
     (case pos of
        StopUpdating \<Rightarrow> stopping (cleanupCrawl w cid)
      | StopCleaning r pc \<Rightarrow> stopping (cleanupCrawl_resume w cid r pc)
      | StopReturned b \<Rightarrow> (w, StopReturned b))"

record crawl_status =
  st_crawlId :: crawlId
  st_url :: url
  st_status :: status
  st_pagesProcessed :: nat
  st_screenshotCount :: nat
  st_errorCount :: nat
  st_startTime :: int
  st_duration :: int
  st_isActive :: bool

text \<open>
  \<^verbatim>\<open>getCrawlStatus\<close>; \<open>None\<close> is \<^verbatim>\<open>null\<close>. For an active job the number of pages is
  \<^verbatim>\<open>activeCrawl.visitedUrls?.size || 0\<close>.
\<close>

definition getCrawlStatus :: "world \<Rightarrow> crawlId \<Rightarrow> crawl_status option" where
  "getCrawlStatus w cid =
     (case activeCrawl w cid of
        Some (r, cd) \<Rightarrow>
          Some \<lparr>st_crawlId = cid, st_url = cd_url cd, st_status = cd_status cd,
                st_pagesProcessed =
                  (case cd_visitedUrls cd of None \<Rightarrow> 0 | Some vs \<Rightarrow> length vs),
                st_screenshotCount = length (cd_capturedScreenshots cd),
                st_errorCount = length (cd_errors cd),
                st_startTime = cd_startTime cd,
                st_duration = now w - cd_startTime cd,
                st_isActive = True\<rparr>
      | None \<Rightarrow>
          (case db w cid of
             None \<Rightarrow> None
           | Some j \<Rightarrow>
               Some \<lparr>st_crawlId = cid, st_url = j_url j, st_status = j_status j,
                     st_pagesProcessed = length (j_visitedUrls j),
                     st_screenshotCount = j_screenshotCount j,
                     st_errorCount = j_errorCount j,
                     st_startTime = j_startedAt j,
                     st_duration = j_duration j,
                     st_isActive = False\<rparr>))"

subsection \<open>The service as a transition system\<close>

text \<open>
  The service runs the commands of the command layer, the turns of the executions
  of \<^verbatim>\<open>processCrawl\<close> and the turns of the calls of \<^verbatim>\<open>stopCrawl\<close> one after the other,
  in any order. A command that arrives while a URL is being processed is placed
  after that turn: the loop reads the status only at its head. \<open>StopCrawl\<close> is the
  call of \<^verbatim>\<open>stopCrawl\<close> up to its first \<^verbatim>\<open>await\<close>, \<open>StopTurn k\<close> the next turn of the
  call number \<open>k\<close>, \<open>Tick k e\<close> the next turn of the execution number \<open>k\<close>.
\<close>

datatype event =
    StartCrawl crawlId url int options "string option"
  | PauseCrawl crawlId
  | ResumeCrawl crawlId
  | StopCrawl crawlId
  | StopTurn nat
  | Tick nat tick_env
  | Clock int

type_synonym service = "world \<times> proc list"

definition unallocated :: crawlData where
  "unallocated =
     \<lparr>cd_status = Pending, cd_url = [], cd_depth = 0,
      cd_options = \<lparr>opt_scrollTimeout = None, opt_maxScrolls = None,
                    opt_handleInfiniteScroll = None, opt_performOcr = None,
                    opt_skipOcr = None, opt_useAI = None\<rparr>,
      cd_screenshotDir = [], cd_pages = [], cd_errors = [], cd_capturedScreenshots = [],
      cd_startTime = 0, cd_visitedUrls = None\<rparr>"

definition initial :: service where
  "initial =
     (\<lparr>now = 0, fresh = 0, heap = (\<lambda>r. unallocated), activeCrawls = Map.empty,
       db = Map.empty, ext_calls = [], stopCalls = []\<rparr>, [])"

definition spawn :: "proc list \<Rightarrow> proc option \<Rightarrow> proc list" where
  "spawn ps po = (case po of None \<Rightarrow> ps | Some p \<Rightarrow> ps @ [p])"

fun step :: "service \<Rightarrow> event \<Rightarrow> service" where
  "step (w, ps) (StartCrawl cid u depth opts launch) =
     (case startCrawl w cid u depth opts launch of (w1, po, res) \<Rightarrow> (w1, spawn ps po))"
| "step (w, ps) (PauseCrawl cid) = (fst (pauseCrawl w cid), ps)"
| "step (w, ps) (ResumeCrawl cid) =
     (case resumeCrawl w cid of (w1, po, res) \<Rightarrow> (w1, spawn ps po))"
| "step (w, ps) (StopCrawl cid) =
     (case stopCrawl w cid of
        (w1, pos) \<Rightarrow> (w1\<lparr>stopCalls := stopCalls w1 @ [\<lparr>s_crawlId = cid, s_at = pos\<rparr>]\<rparr>, ps))"
| "step (w, ps) (StopTurn k) =
     (if k < length (stopCalls w)
      then (case stopCrawl_resume w (s_crawlId (stopCalls w ! k)) (s_at (stopCalls w ! k)) of
              (w1, pos) \<Rightarrow>
                (w1\<lparr>stopCalls := (stopCalls w1)[k := (stopCalls w1 ! k)\<lparr>s_at := pos\<rparr>]\<rparr>, ps))
      else (w, ps))"
| "step (w, ps) (Tick k e) =
     (if k < length ps
      then (case tick e (w, ps ! k) of (w1, p1) \<Rightarrow> (w1, ps[k := p1]))
      else (w, ps))"
| "step (w, ps) (Clock t) = (w\<lparr>now := t\<rparr>, ps)"

definition run :: "event list \<Rightarrow> service" where
  "run evs = foldl step initial evs"

section \<open>Auxiliary notions\<close>

text \<open>
  \<^verbatim>\<open>Math.log10\<close> is accurate: on arguments from 1 on its relative error is at most
  \<open>2\<^sup>-\<^sup>5\<^sup>0\<close>, eight units in the last place of a double.
\<close>

definition log10_accurate :: "(real \<Rightarrow> real) \<Rightarrow> bool" where
  "log10_accurate log10 = (\<forall>x \<ge> 1. \<bar>log10 x - log 10 x\<bar> \<le> log 10 x / 2 ^ 50)"

text \<open>No object on the heap has the property \<^verbatim>\<open>visitedUrls\<close>.\<close>

definition no_visitedUrls :: "world \<Rightarrow> bool" where
  "no_visitedUrls w = (\<forall>r. cd_visitedUrls (heap w r) = None)"

text \<open>How often a call occurs among the calls made.\<close>

definition releases :: "ext_call list \<Rightarrow> ext_call \<Rightarrow> nat" where
  "releases cs c = length (filter (\<lambda>x. x = c) cs)"

text \<open>The status of every job, in memory and in the store.\<close>

definition job_statuses :: "world \<Rightarrow> (nat \<Rightarrow> status) \<times> (crawlId \<Rightarrow> status option)" where
  "job_statuses w = (\<lambda>r. cd_status (heap w r), \<lambda>cid. map_option j_status (db w cid))"

text \<open>Every job in \<^verbatim>\<open>activeCrawls\<close> has a depth of at least 1.\<close>

definition depth_ok :: "world \<Rightarrow> bool" where
  "depth_ok w = (\<forall>cid r. activeCrawls w cid = Some r \<longrightarrow> 1 \<le> cd_depth (heap w r))"

text \<open>No queued pair lies more than one level below the maximum depth.\<close>

definition queue_ok :: "proc \<Rightarrow> bool" where
  "queue_ok p = (1 \<le> p_maxDepth p \<and> (\<forall>(u, k) \<in> set (p_urlQueue p). k \<le> p_maxDepth p + 1))"

definition visited_ok :: "proc \<Rightarrow> bool" where
  "visited_ok p = distinct (p_visitedUrls p)"

text \<open>Two states of an execution that differ in the queue at most.\<close>

definition same_proc :: "proc \<Rightarrow> proc \<Rightarrow> bool" where
  "same_proc p q =
     (p_maxDepth q = p_maxDepth p \<and> p_visitedUrls q = p_visitedUrls p \<and> p_page q = p_page p
      \<and> p_phase q = p_phase p \<and> p_crawlData q = p_crawlData p \<and> p_crawlId q = p_crawlId p
      \<and> p_options q = p_options p)"

definition service_ok :: "service \<Rightarrow> bool" where
  "service_ok sv = (depth_ok (fst sv) \<and> (\<forall>p \<in> set (snd sv). queue_ok p \<and> visited_ok p))"

text \<open>The URLs of the navigations made on a page, in the order of the calls.\<close>

fun gotos :: "nat \<Rightarrow> ext_call list \<Rightarrow> url list" where
  "gotos pg [] = []"
| "gotos pg (c # cs) =
     (case c of Goto q u \<Rightarrow> if q = pg then u # gotos pg cs else gotos pg cs
      | _ \<Rightarrow> gotos pg cs)"

definition nav_view :: "world \<Rightarrow> nat \<times> (nat \<Rightarrow> url list)" where
  "nav_view w = (fresh w, \<lambda>pg. gotos pg (ext_calls w))"

text \<open>
  The executions have different pages, and the navigations made on the page of
  an execution are to the URLs of its \<^verbatim>\<open>visitedUrls\<close>, in that order.
\<close>

definition nav_ok :: "service \<Rightarrow> bool" where
  "nav_ok sv =
     (distinct (map p_page (snd sv))
      \<and> (\<forall>pg. fresh (fst sv) \<le> pg \<longrightarrow> gotos pg (ext_calls (fst sv)) = [])
      \<and> (\<forall>p \<in> set (snd sv). p_page p < fresh (fst sv)
            \<and> gotos (p_page p) (ext_calls (fst sv)) = p_visitedUrls p))"

section \<open>Sample inputs\<close>

text \<open>Fifty tokens of six letters each, separated by single spaces.\<close>

definition fifty_tokens :: string where
  "fifty_tokens = concat (replicate 50 ''abcdef '')"

text \<open>
  A text of 124 tokens with 295 characters in them, 63 error glyphs and 434
  characters in all, for which the reference formula gives 97.5.
\<close>

definition tie_text :: string where
  "tie_text =
     concat (replicate 63 ''|b '') @ concat (replicate 14 ''ab '')
       @ concat (replicate 47 ''abc '') @ replicate 15 CHR '' ''"

text \<open>A \<^verbatim>\<open>Math.log10\<close> that returns the double nearest to the logarithm.\<close>

definition correctly_rounded_log10 :: "real \<Rightarrow> real" where
  "correctly_rounded_log10 x = nearest_double (log 10 x)"






text \<open>
  Options that switch off scrolling, recognition and the advisory service, and a
  page that loads, is captured and carries the given links.
\<close>

definition still_page :: scroll_env where
  "still_page =
     \<lparr>startTime = 0, clock = (\<lambda>k. 0), scrollHeight = (\<lambda>k. Inr 0),
      scrollDown = (\<lambda>k. None), waitForTimeout = (\<lambda>k. None), scrollUp = None,
      SCROLL_TIMEOUT_MS = None\<rparr>"

definition plain_options :: options where
  "plain_options =
     \<lparr>opt_scrollTimeout = None, opt_maxScrolls = None, opt_handleInfiniteScroll = Some False,
      opt_performOcr = None, opt_skipOcr = Some True, opt_useAI = Some False\<rparr>"

definition page_with :: "url list \<Rightarrow> tick_env" where
  "page_with ls =
     \<lparr>e_newPage = None, e_goto = None, e_loadState = None, e_scroll = still_page,
      e_screenshotName = ''1.png'', e_screenshot = None,
      e_ocr = \<lparr>broadcast = None, recognize = Inl ''no engine'', uuid = ''id'',
               Math_log10 = correctly_rounded_log10\<rparr>,
      e_links = Inr ls, e_title = Inr ''title'', e_priorityUrls = None\<rparr>"

text \<open>A job is started, its page opens, and the start page is processed.\<close>

definition one_page_run :: "event list" where
  "one_page_run =
     [StartCrawl ''job'' ''http://a/'' 2 plain_options None,
      Tick 0 (page_with []),
      Tick 0 (page_with [''http://a/x'', ''http://a/y''])]"

text \<open>A page whose navigation is rejected.\<close>

definition failing_navigation :: tick_env where
  "failing_navigation = (page_with [])\<lparr>e_goto := Some ''net::ERR_NAME_NOT_RESOLVED''\<rparr>"

text \<open>
  Options with recognition switched on, and a job started with them whose page has
  opened. The recognition engine of \<open>page_with\<close> fails.
\<close>

definition ocr_options :: options where
  "ocr_options =
     \<lparr>opt_scrollTimeout = None, opt_maxScrolls = None, opt_handleInfiniteScroll = Some False,
      opt_performOcr = None, opt_skipOcr = None, opt_useAI = Some False\<rparr>"

definition ocr_run :: "event list" where
  "ocr_run = [StartCrawl ''job'' ''http://a/'' 2 ocr_options None, Tick 0 (page_with [])]"

text \<open>
  A job of maximum depth 1 with the advisory service switched on: the service
  suggests \<open>p\<close> on the start page and \<open>q\<close> on \<open>p\<close>.
\<close>

definition advice_options :: options where
  "advice_options =
     \<lparr>opt_scrollTimeout = None, opt_maxScrolls = None, opt_handleInfiniteScroll = Some False,
      opt_performOcr = None, opt_skipOcr = Some True, opt_useAI = None\<rparr>"

definition advised_page :: "url list \<Rightarrow> tick_env" where
  "advised_page priorityUrls = (page_with [])\<lparr>e_priorityUrls := Some priorityUrls\<rparr>"

definition advice_run :: "event list" where
  "advice_run =
     [StartCrawl ''job'' ''http://a/'' 1 advice_options None,
      Tick 0 (page_with []),
      Tick 0 (advised_page [''http://a/p'']),
      Tick 0 (advised_page [''http://a/q''])]"

text \<open>A job whose start page links to itself and to \<open>x\<close>.\<close>

definition self_link_run :: "event list" where
  "self_link_run =
     [StartCrawl ''job'' ''http://a/'' 2 plain_options None,
      Tick 0 (page_with []),
      Tick 0 (page_with [''http://a/'', ''http://a/x''])]"

text \<open>
  The start page has been processed and two links wait in the queue. Then the job
  is paused, or stopped, or paused and resumed at once; \<open>next_turn\<close> is the next turn
  of the first execution, and \<open>resumed_turns\<close> are the first two turns of the
  execution that \<^verbatim>\<open>resumeCrawl\<close> starts.
\<close>

definition pause_run :: "event list" where
  "pause_run = one_page_run @ [PauseCrawl ''job'']"

definition stop_run :: "event list" where
  "stop_run = one_page_run @ [StopCrawl ''job'']"

definition resume_run :: "event list" where
  "resume_run = one_page_run @ [PauseCrawl ''job'', ResumeCrawl ''job'']"

text \<open>
  The job is stopped after its start page has been processed. In \<open>overlap_run\<close> the
  execution of \<^verbatim>\<open>processCrawl\<close> takes its turns between those of the call of
  \<^verbatim>\<open>stopCrawl\<close>: it leaves the loop while \<^verbatim>\<open>stopCrawl\<close> awaits the store, and its
  \<^verbatim>\<open>finally\<close> block calls \<^verbatim>\<open>cleanupCrawl\<close> while the \<^verbatim>\<open>cleanupCrawl\<close> of \<^verbatim>\<open>stopCrawl\<close>
  awaits the closing of the page. In \<open>sequential_run\<close> the call of \<^verbatim>\<open>stopCrawl\<close> has
  returned before \<^verbatim>\<open>stopCrawl\<close> is called a second time and before the execution
  takes its turns.
\<close>

definition overlap_run :: "event list" where
  "overlap_run =
     one_page_run @
     [StopCrawl ''job'', Tick 0 (page_with []),
      StopTurn 0, Tick 0 (page_with []),
      StopTurn 0, Tick 0 (page_with []),
      StopTurn 0, Tick 0 (page_with []),
      StopTurn 0, Tick 0 (page_with []),
      StopTurn 0, Tick 0 (page_with [])]"

definition sequential_run :: "event list" where
  "sequential_run =
     one_page_run @
     [StopCrawl ''job'', StopTurn 0, StopTurn 0, StopTurn 0, StopTurn 0, StopTurn 0,
      StopCrawl ''job'', Tick 0 (page_with []), Tick 0 (page_with [])]"

definition next_turn :: "event list" where
  "next_turn = [Tick 0 (page_with [])]"

definition resumed_turns :: "event list" where
  "resumed_turns = [Tick 1 (page_with []), Tick 1 (page_with [''http://a/x'', ''http://a/y''])]"

section \<open>Verified properties\<close>

subsection \<open>Recognition confidence\<close>

lemma split_pieces_blank:
  "list_all is_space cs \<Longrightarrow> set (split_pieces cs cur inws) \<subseteq> {cur, []}"
  by (induction cs arbitrary: cur inws) auto

lemma blank_no_words: "list_all is_space t \<Longrightarrow> words_of t = []"
  using split_pieces_blank [of t "[]" False]
  by (auto simp: words_of_def split_ws_def filter_empty_conv)

lemma split_pieces_nonempty:
  "cur \<noteq> [] \<or> \<not> list_all is_space cs \<Longrightarrow> \<exists>w \<in> set (split_pieces cs cur inws). w \<noteq> []"
proof (induction cs arbitrary: cur inws)
  case Nil
  then show ?case by simp
next
  case (Cons c cs)
  show ?case
  proof (cases "is_space c")
    case True
    note sp = True
    show ?thesis
    proof (cases "cur = []")
      case True
      with Cons.prems sp have "\<not> list_all is_space cs" by simp
      then have "\<And>i. \<exists>w \<in> set (split_pieces cs [] i). w \<noteq> []"
        using Cons.IH by blast
      with sp True show ?thesis by auto
    next
      case False
      with sp Cons.IH [of cur True] show ?thesis by auto
    qed
  next
    case False
    have "\<exists>w \<in> set (split_pieces cs (cur @ [c]) False). w \<noteq> []"
      using Cons.IH [of "cur @ [c]" False] by simp
    with False show ?thesis by simp
  qed
qed

lemma words_of_nonempty: "\<not> list_all is_space t \<Longrightarrow> words_of t \<noteq> []"
  using split_pieces_nonempty [of "[]" t False]
  by (auto simp: words_of_def split_ws_def filter_empty_conv)

lemma foldl_add_length: "foldl (\<lambda>s w. s + length w) a ws = a + sum_list (map length ws)"
  by (induction ws arbitrary: a) auto

text \<open>Clamping to the interval from 0 to 100 commutes with rounding.\<close>

lemma round_clamp: "max 0 (min 100 (round (x::real))) = round (max 0 (min 100 x))"
proof -
  have m: "\<And>a b::real. a \<le> b \<Longrightarrow> round a \<le> round b" by (rule round_mono)
  have r0: "round (0::real) = 0" and r100: "round (100::real) = 100" by simp_all
  consider "x \<le> 0" | "0 < x" "x \<le> 100" | "100 < x" by linarith
  then show ?thesis
  proof cases
    case 1
    then have "round x \<le> 0" using m [of x 0] r0 by simp
    with 1 show ?thesis by (simp add: max_def min_def)
  next
    case 2
    then have "0 \<le> round x" "round x \<le> 100" using m [of 0 x] m [of x 100] r0 r100 by simp_all
    with 2 show ?thesis by (simp add: max_def min_def)
  next
    case 3
    then have "100 \<le> round x" using m [of 100 x] r100 by simp
    with 3 show ?thesis by (simp add: max_def min_def)
  qed
qed

lemma round_half_even_near: "\<bar>of_int (round_half_even x) - x\<bar> \<le> 1 / 2"
proof -
  have "of_int \<lfloor>x\<rfloor> \<le> x" "x < of_int \<lfloor>x\<rfloor> + 1" by linarith+
  then show ?thesis by (auto simp: round_half_even_def Let_def)
qed

lemma round_half_even_eq:
  "\<bar>x - of_int m\<bar> < 1 / 2 \<Longrightarrow> round_half_even x = m"
proof -
  assume a: "\<bar>x - of_int m\<bar> < 1 / 2"
  have f: "of_int \<lfloor>x\<rfloor> \<le> x" "x < of_int \<lfloor>x\<rfloor> + 1" by linarith+
  consider "\<lfloor>x\<rfloor> = m" | "\<lfloor>x\<rfloor> = m - 1" using a f by (auto simp: abs_if split: if_splits) linarith+
  then show ?thesis
  proof cases
    case 1
    with a show ?thesis by (auto simp: round_half_even_def Let_def abs_if split: if_splits)
  next
    case 2
    with a show ?thesis by (auto simp: round_half_even_def Let_def abs_if split: if_splits)
  qed
qed

lemma round_half_even_tie:
  "x = of_int m + 1 / 2 \<Longrightarrow> even m \<Longrightarrow> round_half_even x = m"
proof -
  assume x: "x = of_int m + 1 / 2" and e: "even m"
  have "\<lfloor>x\<rfloor> = m" unfolding x by linarith
  with x e show ?thesis by (simp add: round_half_even_def Let_def)
qed

lemma nearest_double_scaled:
  assumes "x \<noteq> 0" "2 ^ 52 \<le> \<bar>x\<bar> * 2 ^ k" "\<bar>x\<bar> * 2 ^ k < 2 ^ 53"
  shows "nearest_double x = of_int (round_half_even (x * 2 ^ k)) / 2 ^ k"
proof -
  have pos: "0 < \<bar>x\<bar>" using assms(1) by simp
  have l: "log 2 (\<bar>x\<bar> * 2 ^ k) = log 2 \<bar>x\<bar> + real k"
    using pos by (simp add: log_mult log_nat_power)
  have "log 2 (2 ^ 52) \<le> log 2 (\<bar>x\<bar> * 2 ^ k)"
    using assms(2) pos by (subst log_le_cancel_iff) simp_all
  then have lo: "52 \<le> log 2 \<bar>x\<bar> + real k"
    unfolding l using log_nat_power [of "2::real" 2 52] by simp
  have "log 2 (\<bar>x\<bar> * 2 ^ k) < log 2 (2 ^ 53)"
    using assms(3) pos by (subst log_less_cancel_iff) simp_all
  then have hi: "log 2 \<bar>x\<bar> + real k < 53"
    unfolding l using log_nat_power [of "2::real" 2 53] by simp
  have e: "\<lfloor>log 2 \<bar>x\<bar>\<rfloor> = 52 - int k"
    using lo hi by (intro floor_unique) simp_all
  have p1: "(2::real) powr real k = 2 ^ k"
    by (simp add: powr_realpow)
  have p2: "(2::real) powr - real k = 1 / 2 ^ k"
    by (simp add: powr_minus powr_realpow divide_simps)
  show ?thesis
    using assms(1) by (simp add: nearest_double_def e Let_def p1 p2)
qed

lemma nearest_double_error: "\<bar>nearest_double x - x\<bar> \<le> \<bar>x\<bar> / 2 ^ 53"
proof (cases "x = 0")
  case True
  then show ?thesis by (simp add: nearest_double_def)
next
  case False
  define e where "e = \<lfloor>log 2 \<bar>x\<bar>\<rfloor>"
  define s where "s = (2::real) powr (of_int e - 52)"
  have spos: "0 < s" by (simp add: s_def)
  have inv: "2 powr (52 - of_int e) = 1 / s"
    by (simp add: s_def powr_diff)
  have fl: "nearest_double x = of_int (round_half_even (x / s)) * s"
    using False by (simp add: nearest_double_def Let_def e_def [symmetric] inv s_def [symmetric])
  have "\<bar>of_int (round_half_even (x / s)) - x / s\<bar> \<le> 1 / 2"
    by (rule round_half_even_near)
  then have "\<bar>of_int (round_half_even (x / s)) - x / s\<bar> * s \<le> 1 / 2 * s"
    using spos by (intro mult_right_mono) simp_all
  moreover have "\<bar>of_int (round_half_even (x / s)) - x / s\<bar> * s
      = \<bar>of_int (round_half_even (x / s)) * s - x\<bar>"
  proof -
    have "\<bar>of_int (round_half_even (x / s)) - x / s\<bar> * s
        = \<bar>(of_int (round_half_even (x / s)) - x / s) * s\<bar>"
      using spos by (simp add: abs_mult)
    also have "(of_int (round_half_even (x / s)) - x / s) * s
        = of_int (round_half_even (x / s)) * s - x"
      using spos by (simp add: left_diff_distrib)
    finally show ?thesis .
  qed
  ultimately have err: "\<bar>nearest_double x - x\<bar> \<le> s / 2" by (simp add: fl)
  have "of_int e \<le> log 2 \<bar>x\<bar>" by (simp add: e_def)
  then have "2 powr of_int e \<le> 2 powr log 2 \<bar>x\<bar>" by simp
  then have le: "2 powr of_int e \<le> \<bar>x\<bar>" using False by simp
  have "s = 2 powr of_int e / 2 ^ 52"
    by (simp add: s_def powr_diff powr_realpow [symmetric])
  then have "s / 2 = 2 powr of_int e / 2 ^ 53" by simp
  also have "\<dots> \<le> \<bar>x\<bar> / 2 ^ 53" using le by (simp add: divide_right_mono)
  finally show ?thesis using err by linarith
qed


lemma rawConfidence_error:
  assumes acc: "log10_accurate log10" and nb: "\<not> list_all is_space t"
  shows "\<bar>rawConfidence log10 t
           - (spec_base t + min 20 (2 * spec_avg_token_length t) - 50 * spec_glyph_fraction t)\<bar>
         \<le> 1 / 10 ^ 12"
proof -
  define u :: real where "u = 1 / 2 ^ 53"
  have u: "0 < u" "u \<le> 1 / 5000000000000000" by (simp_all add: u_def)
  have nd: "x - B * u \<le> nearest_double x \<and> nearest_double x \<le> x + B * u" if "\<bar>x\<bar> \<le> B" for x B
  proof -
    have "\<bar>x\<bar> / 2 ^ 53 \<le> B / 2 ^ 53" using that by (simp add: divide_right_mono)
    with nearest_double_error [of x] have "\<bar>nearest_double x - x\<bar> \<le> B * u"
      by (simp add: u_def)
    then show ?thesis by (simp add: abs_le_iff; linarith)
  qed
  have ndl: "c * (1 - u) \<le> nearest_double x" if "0 \<le> x" "c \<le> x" for x c
  proof -
    from nearest_double_error [of x] that have "\<bar>nearest_double x - x\<bar> \<le> x * u"
      by (simp add: u_def)
    then have "x * (1 - u) \<le> nearest_double x" by (simp add: abs_le_iff algebra_simps)
    moreover have "c * (1 - u) \<le> x * (1 - u)"
      using that u by (intro mult_right_mono) simp_all
    ultimately show ?thesis by linarith
  qed
  have ndp: "0 \<le> nearest_double x" if "0 \<le> x" for x
    using ndl [of x 0] that by simp
  have ne: "words_of t \<noteq> []" using nb by (rule words_of_nonempty)
  define W where "W = real (length (words_of t))"
  have W1: "1 \<le> W" using ne by (cases "words_of t") (simp_all add: W_def)
  have mx: "max 1 (wordCount t) = length (words_of t)"
    "max (Suc 0) (wordCount t) = length (words_of t)"
    using ne by (cases "words_of t"; simp add: wordCount_def)+
  define A where "A = spec_avg_token_length t"
  have A0: "0 \<le> A" by (simp add: A_def spec_avg_token_length_def)
  define a where "a = avgWordLength t"
  have a: "a = nearest_double A"
    by (simp add: a_def A_def avgWordLength_def spec_avg_token_length_def spec_tokens_def mx
        foldl_add_length)
  define \<rho> where "\<rho> = spec_glyph_fraction t"
  have tne: "t \<noteq> []" using nb by auto
  have "length (filter is_error_char t) \<le> length t" by simp
  then have "real (length (filter is_error_char t)) \<le> real (length t)" by linarith
  then have \<rho>: "0 \<le> \<rho>" "\<rho> \<le> 1"
    using tne by (simp_all add: \<rho>_def spec_glyph_fraction_def divide_le_eq)
  define r where "r = errorRatio t"
  have r: "r = nearest_double \<rho>"
    by (simp add: r_def \<rho>_def errorRatio_def spec_glyph_fraction_def errorChars_def)
  define Lg where "Lg = log 10 W"
  have Lg0: "0 \<le> Lg" using W1 by (simp add: Lg_def)
  define l where "l = log10 W"
  define d where "d = Lg * (8 * u)"
  have "\<bar>l - Lg\<bar> \<le> Lg / 2 ^ 50"
    using acc W1 by (simp add: log10_accurate_def l_def Lg_def)
  also have "Lg / 2 ^ 50 = d" by (simp add: d_def u_def)
  finally have l: "Lg - d \<le> l" "l \<le> Lg + d"
    unfolding abs_le_iff by linarith+
  have d0: "0 \<le> d" using Lg0 u by (simp add: d_def)
  have dLg: "d \<le> Lg / 100"
  proof -
    have "Lg * (8 * u) \<le> Lg * (1 / 100)" using Lg0 u by (intro mult_left_mono) simp_all
    then show ?thesis by (simp add: d_def)
  qed
  have sb: "spec_base t = min 100 (40 + 30 * Lg)"
    using W1 by (simp add: spec_base_def spec_tokens_def Lg_def W_def max_def)
  define Bc where "Bc = min 20 (nearest_double (a * 2))"
  define Sc where "Sc = min 100 (nearest_double (40 + nearest_double (30 * l)))"
  have raw: "rawConfidence log10 t
      = nearest_double (nearest_double (Sc + Bc) - nearest_double (r * 50))"
    by (simp add: rawConfidence_def Let_def Sc_def Bc_def a_def r_def l_def W_def mx)
  \<comment> \<open>the bonus\<close>
  have a0: "0 \<le> a" unfolding a using A0 by (rule ndp)
  have Bc0: "0 \<le> Bc" "Bc \<le> 20"
    using ndp [of "a * 2"] a0 by (simp_all add: Bc_def)
  have B: "Bc - min 20 (2 * A) \<le> 82 * u \<and> min 20 (2 * A) - Bc \<le> 82 * u"
  proof (cases "A \<le> 20")
    case True
    with A0 have "\<bar>A\<bar> \<le> 20" by simp
    from nd [OF this] have 1: "A - 20 * u \<le> a" "a \<le> A + 20 * u" by (simp_all add: a)
    with True a0 u have "\<bar>a * 2\<bar> \<le> 42" by simp
    from nd [OF this] have 2: "a * 2 - 42 * u \<le> nearest_double (a * 2)"
      "nearest_double (a * 2) \<le> a * 2 + 42 * u" by simp_all
    from 1 2 show ?thesis by (simp add: Bc_def min_def; linarith)
  next
    case False
    from ndl [of A 20] A0 False u have "19 \<le> a" by (simp add: a; linarith)
    with ndl [of "a * 2" 38] u have "20 \<le> nearest_double (a * 2)" by (simp; linarith)
    with False u show ?thesis by (simp add: Bc_def min_def)
  qed
  \<comment> \<open>the base\<close>
  have l0: "0 \<le> l" using l(1) dLg Lg0 by linarith
  have p0: "0 \<le> nearest_double (30 * l)" using l0 by (intro ndp) simp
  from ndl [of "40 + nearest_double (30 * l)" 40] p0 u
  have s39: "39 \<le> nearest_double (40 + nearest_double (30 * l))" by (simp; linarith)
  then have Sc0: "39 \<le> Sc" "Sc \<le> 100" by (simp_all add: Sc_def)
  have S: "Sc - spec_base t \<le> 1310 * u \<and> spec_base t - Sc \<le> 1310 * u"
  proof (cases "Lg \<le> 4")
    case True
    have "Lg * (8 * u) \<le> 4 * (8 * u)" using True u by (intro mult_right_mono) simp_all
    then have "d \<le> 32 * u" by (simp add: d_def)
    with l have 1: "Lg - 32 * u \<le> l" "l \<le> Lg + 32 * u" by linarith+
    with True l0 u have "\<bar>30 * l\<bar> \<le> 150" by simp
    from nd [OF this] have 2: "30 * l - 150 * u \<le> nearest_double (30 * l)"
      "nearest_double (30 * l) \<le> 30 * l + 150 * u" by simp_all
    with 1 True p0 u have "\<bar>40 + nearest_double (30 * l)\<bar> \<le> 200" by simp
    from nd [OF this]
    have 3: "40 + nearest_double (30 * l) - 200 * u \<le> nearest_double (40 + nearest_double (30 * l))"
      "nearest_double (40 + nearest_double (30 * l)) \<le> 40 + nearest_double (30 * l) + 200 * u"
      by simp_all
    from 1 2 3 show ?thesis by (simp add: Sc_def sb min_def; linarith)
  next
    case False
    from l(1) dLg False have "3 \<le> l" by linarith
    with ndl [of "30 * l" 90] u have p: "89 \<le> nearest_double (30 * l)" by (simp; linarith)
    with ndl [of "40 + nearest_double (30 * l)" 129] u
    have "100 \<le> nearest_double (40 + nearest_double (30 * l))" by (simp; linarith)
    with False u show ?thesis by (simp add: Sc_def sb min_def)
  qed
  \<comment> \<open>the sum, the penalty and the difference\<close>
  have "\<bar>Sc + Bc\<bar> \<le> 120" using Sc0 Bc0 by simp
  from nd [OF this] have c1: "Sc + Bc - 120 * u \<le> nearest_double (Sc + Bc)"
    "nearest_double (Sc + Bc) \<le> Sc + Bc + 120 * u" by simp_all
  have "\<bar>\<rho>\<bar> \<le> 1" using \<rho> by simp
  from nd [OF this] have r1: "\<rho> - u \<le> r" "r \<le> \<rho> + u" by (simp_all add: r)
  have r0: "0 \<le> r" unfolding r using \<rho>(1) by (rule ndp)
  with r1 \<rho> u have "\<bar>r * 50\<bar> \<le> 51" by simp
  from nd [OF this] have pen: "r * 50 - 51 * u \<le> nearest_double (r * 50)"
    "nearest_double (r * 50) \<le> r * 50 + 51 * u" by simp_all
  have pen0: "0 \<le> nearest_double (r * 50)" using r0 by (intro ndp) simp
  have "\<bar>nearest_double (Sc + Bc) - nearest_double (r * 50)\<bar> \<le> 173"
    using c1 pen pen0 r1 \<rho> Sc0 Bc0 u by (simp add: abs_le_iff; linarith)
  from nd [OF this]
  have c2: "nearest_double (Sc + Bc) - nearest_double (r * 50) - 173 * u
        \<le> rawConfidence log10 t"
    "rawConfidence log10 t
        \<le> nearest_double (Sc + Bc) - nearest_double (r * 50) + 173 * u"
    by (simp_all add: raw)
  from c1 c2 pen r1 B S
  have "\<bar>rawConfidence log10 t - (spec_base t + min 20 (2 * A) - 50 * \<rho>)\<bar> \<le> 1786 * u"
    unfolding abs_le_iff by linarith
  moreover have "1786 * u \<le> 1 / 10 ^ 12" using u by simp
  ultimately show ?thesis unfolding A_def \<rho>_def by linarith
qed


lemma clamp_close:
  "\<bar>x - y\<bar> \<le> (h::real) \<Longrightarrow> \<bar>max 0 (min 100 x) - max 0 (min 100 y)\<bar> \<le> h"
  by (simp add: max_def min_def abs_le_iff split: if_splits; linarith)

lemma round_stable:
  assumes "\<bar>x - y\<bar> \<le> (h::real)" "h < \<bar>frac y - 1 / 2\<bar>" "h \<le> 1 / 2"
  shows "round x = round y"
proof -
  define n where "n = \<lfloor>y\<rfloor>"
  have y: "y = of_int n + frac y" by (simp add: n_def frac_def)
  have f: "0 \<le> frac y" "frac y < 1" by (simp_all add: frac_lt_1)
  from assms(1) have x: "y - h \<le> x" "x \<le> y + h" unfolding abs_le_iff by linarith+
  from assms(1) have h0: "0 \<le> h" by linarith
  consider "frac y < 1 / 2 - h" | "1 / 2 + h < frac y"
    using assms(2) by (auto simp: abs_if split: if_splits)
  then show ?thesis
  proof cases
    case 1
    have "round y = n" unfolding round_def using y f 1 h0 assms(3) by (intro floor_unique) linarith+
    moreover have "round x = n"
      unfolding round_def using y f 1 x h0 assms(3) by (intro floor_unique) linarith+
    ultimately show ?thesis by simp
  next
    case 2
    have "round y = n + 1" unfolding round_def using y f 2 h0 assms(3)
      by (intro floor_unique) (simp_all; linarith)+
    moreover have "round x = n + 1"
      unfolding round_def using y f 2 x h0 assms(3) by (intro floor_unique) (simp_all; linarith)+
    ultimately show ?thesis by simp
  qed
qed

lemma calculateConfidence_blank: "list_all is_space t \<Longrightarrow> calculateConfidence log10 t = 0"
  by (simp add: calculateConfidence_def trim_is_empty_def)

lemma calculateConfidence_close:
  assumes acc: "log10_accurate log10"
  shows "\<bar>real_of_int (calculateConfidence log10 t) - spec_confidence t\<bar> \<le> 1 / 2 + 1 / 10 ^ 12"
    and "1 / 10 ^ 12 < \<bar>frac (spec_confidence t) - 1 / 2\<bar>
           \<Longrightarrow> calculateConfidence log10 t = round (spec_confidence t)"
proof -
  define x where "x = max 0 (min 100 (rawConfidence log10 t))"
  have *: "calculateConfidence log10 t = round x \<and> \<bar>x - spec_confidence t\<bar> \<le> 1 / 10 ^ 12"
    if "\<not> list_all is_space t"
  proof -
    from that have "t \<noteq> []" by auto
    with that have c: "calculateConfidence log10 t = round x"
      by (simp add: calculateConfidence_def trim_is_empty_def round_clamp x_def)
    from clamp_close [OF rawConfidence_error [OF acc that]] that
    have "\<bar>x - spec_confidence t\<bar> \<le> 1 / 10 ^ 12"
      by (simp add: x_def spec_confidence_def)
    with c show ?thesis by simp
  qed
  show "\<bar>real_of_int (calculateConfidence log10 t) - spec_confidence t\<bar> \<le> 1 / 2 + 1 / 10 ^ 12"
  proof (cases "list_all is_space t")
    case True
    then show ?thesis by (simp add: calculateConfidence_blank spec_confidence_def)
  next
    case False
    from * [OF False] of_int_round_abs_le [of x] show ?thesis
      unfolding abs_le_iff by (simp; linarith)
  qed
  show "calculateConfidence log10 t = round (spec_confidence t)"
    if "1 / 10 ^ 12 < \<bar>frac (spec_confidence t) - 1 / 2\<bar>"
  proof (cases "list_all is_space t")
    case True
    then show ?thesis by (simp add: calculateConfidence_blank spec_confidence_def)
  next
    case False
    from * [OF False] have "round x = round (spec_confidence t)"
      using that by (intro round_stable [where h = "1 / 10 ^ 12"]) simp_all
    with * [OF False] show ?thesis by simp
  qed
qed

lemma log10_50: "8 / 5 \<le> log 10 (50::real)"
proof -
  have a: "log 10 (100000000::real) \<le> log 10 312500000"
    by simp
  have b: "log 10 (100000000::real) = 8"
    using log_pow_cancel [of "10::real" 8] by simp
  have c: "log 10 (312500000::real) = 5 * log 10 50"
    using log_nat_power [of "50::real" 10 5] by simp
  from a b c show ?thesis by linarith
qed

lemma fifty_tokens_of_six:
  assumes acc: "log10_accurate log10"
    and "length (spec_tokens t) = 50" "spec_avg_token_length t = 6" "spec_glyph_fraction t = 0"
  shows "calculateConfidence log10 t = 100"
proof -
  have nb: "\<not> list_all is_space t"
  proof
    assume "list_all is_space t"
    then have "words_of t = []" by (rule blank_no_words)
    with assms(2) show False by (simp add: spec_tokens_def)
  qed
  have "88 \<le> 40 + 30 * log 10 (50::real)" using log10_50 by simp
  then have s: "spec_confidence t = 100"
    using nb assms(2-4) by (simp add: spec_confidence_def spec_base_def min_def)
  have "1 / 10 ^ 12 < \<bar>frac (spec_confidence t) - 1 / 2\<bar>"
    unfolding s by (simp add: frac_def)
  from calculateConfidence_close(2) [OF acc this] s show ?thesis by simp
qed

lemma correctly_rounded_log10_accurate: "log10_accurate correctly_rounded_log10"
proof -
  have "\<bar>nearest_double (log 10 x) - log 10 x\<bar> \<le> log 10 x / 2 ^ 50" if "1 \<le> x" for x :: real
  proof -
    from that have p: "0 \<le> log 10 x" by simp
    then have "\<bar>log 10 x\<bar> / 2 ^ 53 \<le> log 10 x / 2 ^ 50"
      by (simp add: field_simps)
    with nearest_double_error [of "log 10 x"] show ?thesis by linarith
  qed
  then show ?thesis by (simp add: log10_accurate_def correctly_rounded_log10_def)
qed


lemma nearest_double_lower:
  assumes "0 \<le> x" "c \<le> x"
  shows "c * (1 - 1 / 2 ^ 53) \<le> nearest_double x"
proof -
  from nearest_double_error [of x] assms(1) have "\<bar>nearest_double x - x\<bar> \<le> x * (1 / 2 ^ 53)"
    by simp
  then have "x * (1 - 1 / 2 ^ 53) \<le> nearest_double x"
    unfolding abs_le_iff by (simp add: algebra_simps)
  moreover have "c * (1 - 1 / 2 ^ 53) \<le> x * (1 - 1 / 2 ^ 53)"
    using assms(2) by (intro mult_right_mono) simp_all
  ultimately show ?thesis by linarith
qed

lemma tie_text_counts:
  "wordCount tie_text = 124"
  "foldl (\<lambda>s w. s + length w) 0 (words_of tie_text) = 295"
  "length (errorChars tie_text) = 63"
  "length tie_text = 434"
  "trim_is_empty tie_text = False"
  "tie_text \<noteq> []"
  unfolding tie_text_def by code_simp+

lemma nd_avg: "nearest_double (295 / 124) = 5357104395460872 / 2 ^ 51"
  by (subst nearest_double_scaled [where k = 51])
     (simp_all add: round_half_even_eq [where m = 5357104395460872])

lemma nd_twice: "nearest_double (5357104395460872 / 2 ^ 51 * 2) = 5357104395460872 / 2 ^ 50"
  by (subst nearest_double_scaled [where k = 50])
     (simp_all add: round_half_even_eq [where m = 5357104395460872])

lemma nd_sum: "nearest_double (100 + 5357104395460872 / 2 ^ 50) = 7371693442482704 / 2 ^ 46"
  by (subst nearest_double_scaled [where k = 46])
     (simp_all add: round_half_even_tie [where m = 7371693442482704])

lemma nd_ratio: "nearest_double (63 / 434) = 5229986664043157 / 2 ^ 55"
  by (subst nearest_double_scaled [where k = 55])
     (simp_all add: round_half_even_eq [where m = 5229986664043157])

lemma nd_penalty: "nearest_double (5229986664043157 / 2 ^ 55 * 50) = 8171854162567433 / 2 ^ 50"
  by (subst nearest_double_scaled [where k = 50])
     (simp_all add: round_half_even_eq [where m = 8171854162567433])

lemma nd_diff:
  "nearest_double (7371693442482704 / 2 ^ 46 - 8171854162567433 / 2 ^ 50)
     = 6860952557322239 / 2 ^ 46"
  by (subst nearest_double_scaled [where k = 46])
     (simp_all add: round_half_even_eq [where m = 6860952557322239])


lemma log10_124: "41 / 20 \<le> log 10 (124::real)"
proof -
  have a: "log 10 ((10::real) ^ 41) \<le> log 10 (124 ^ 20)"
    by (subst log_le_cancel_iff) simp_all
  have b: "log 10 ((10::real) ^ 41) = 41"
    using log_pow_cancel [of "10::real" 41] by simp
  have c: "log 10 ((124::real) ^ 20) = 20 * log 10 124"
    using log_nat_power [of "124::real" 10 20] by simp
  from a b c show ?thesis by linarith
qed

lemma tie_text_base:
  assumes acc: "log10_accurate log10"
  shows "min 100 (nearest_double (40 + nearest_double (30 * log10 124))) = 100"
proof -
  have "\<bar>log10 124 - log 10 124\<bar> \<le> log 10 124 / 2 ^ 50"
    using acc by (simp add: log10_accurate_def)
  then have "log 10 124 * (1 - 1 / 2 ^ 50) \<le> log10 124"
    unfolding abs_le_iff by (simp add: algebra_simps)
  moreover have "41 / 20 * (1 - 1 / 2 ^ 50) \<le> log 10 124 * (1 - 1 / 2 ^ 50)"
    using log10_124 by (intro mult_right_mono) simp_all
  ultimately have l: "2 \<le> log10 124 \<and> 61 \<le> 30 * log10 124" by simp
  with nearest_double_lower [of "30 * log10 124" 61]
  have p: "609 / 10 \<le> nearest_double (30 * log10 124)" by simp
  with nearest_double_lower [of "40 + nearest_double (30 * log10 124)" "1009 / 10"]
  have "100 \<le> nearest_double (40 + nearest_double (30 * log10 124))" by simp
  then show ?thesis by simp
qed

lemma tie_text_raw:
  assumes acc: "log10_accurate log10"
  shows "rawConfidence log10 tie_text = 6860952557322239 / 2 ^ 46"
proof -
  have a: "avgWordLength tie_text = 5357104395460872 / 2 ^ 51"
    by (simp add: avgWordLength_def tie_text_counts nd_avg)
  have b: "min 20 (nearest_double (avgWordLength tie_text * 2)) = 5357104395460872 / 2 ^ 50"
    unfolding a nd_twice by simp
  have "nearest_double (9 / 62) = 5229986664043157 / 2 ^ 55"
    using nd_ratio by simp
  then have r: "errorRatio tie_text = 5229986664043157 / 2 ^ 55"
    by (simp add: errorRatio_def tie_text_counts)
  have "rawConfidence log10 tie_text
      = nearest_double (nearest_double (100 + 5357104395460872 / 2 ^ 50)
          - nearest_double (5229986664043157 / 2 ^ 55 * 50))"
    unfolding rawConfidence_def Let_def b r
    using tie_text_base [OF acc] by (simp add: tie_text_counts)
  then show ?thesis unfolding nd_sum nd_penalty nd_diff .
qed

lemma tie_text_spec: "spec_confidence tie_text = 195 / 2"
proof -
  have nb: "\<not> list_all is_space tie_text"
    using tie_text_counts(5) by (simp add: trim_is_empty_def)
  have w: "length (words_of tie_text) = 124"
    using tie_text_counts(1) by (simp add: wordCount_def)
  have s: "sum_list (map length (words_of tie_text)) = 295"
    using tie_text_counts(2) by (simp add: foldl_add_length)
  have e: "length (filter is_error_char tie_text) = 63"
    using tie_text_counts(3) by (simp add: errorChars_def)
  have "100 \<le> 40 + 30 * log 10 (124::real)" using log10_124 by simp
  then have b: "spec_base tie_text = 100"
    by (simp add: spec_base_def spec_tokens_def w)
  show ?thesis
    using nb by (simp add: spec_confidence_def b spec_avg_token_length_def spec_tokens_def w s
        spec_glyph_fraction_def e tie_text_counts)
qed

lemma tie_text_score:
  assumes acc: "log10_accurate log10"
  shows "calculateConfidence log10 tie_text = 97"
proof -
  have "round (6860952557322239 / 2 ^ 46 :: real) = 97"
    by (rule round_unique') simp
  then show ?thesis
    by (simp add: calculateConfidence_def tie_text_counts tie_text_raw [OF acc])
qed

lemma ab_spec: "spec_confidence ''ab?'' = 88 / 3"
proof -
  have w: "words_of ''ab?'' = [''ab?'']"
    by (simp add: words_of_def split_ws_def is_space_def)
  show ?thesis
    by (simp add: spec_confidence_def is_space_def spec_base_def spec_tokens_def w
        spec_avg_token_length_def spec_glyph_fraction_def is_error_char_def)
qed

lemma ab_score:
  assumes acc: "log10_accurate log10"
  shows "calculateConfidence log10 ''ab?'' = 29"
proof -
  have f: "\<lfloor>88 / 3 :: real\<rfloor> = 29" by (rule floor_unique) simp_all
  have "1 / 10 ^ 12 < \<bar>frac (spec_confidence ''ab?'') - 1 / 2\<bar>"
    unfolding ab_spec by (simp add: frac_def f)
  from calculateConfidence_close(2) [OF acc this]
  have "calculateConfidence log10 ''ab?'' = round (88 / 3 :: real)" by (simp add: ab_spec)
  also have "round (88 / 3 :: real) = 29" by (rule round_unique') simp
  finally show ?thesis .
qed


text \<open>
  Claim C6, as the code has it. \<^verbatim>\<open>calculateConfidence\<close> evaluates the reference formula
  of the specification in double-precision arithmetic and rounds the result to an
  integer. Whenever \<^verbatim>\<open>Math.log10\<close> is accurate to a relative error of \<open>2\<^sup>-\<^sup>5\<^sup>0\<close>: empty
  or blank text scores 0; the score differs from the value of the formula (the base
  score \<open>min(100, 40 + 30 log10(max(1, tokens)))\<close> plus \<open>min(20, 2 avg)\<close> minus fifty
  times the fraction of error glyphs, clamped to the interval from 0 to 100) by at
  most \<open>1/2 + 10\<^sup>-\<^sup>1\<^sup>2\<close>; it is that value rounded to the nearest integer unless the value
  lies within \<open>10\<^sup>-\<^sup>1\<^sup>2\<close> of the middle between two integers, where the rounding errors
  of the arithmetic decide: for the text \<open>tie_text\<close> the formula gives 97.5 and the
  score is 97. A text of 50 tokens of average length 6 without error glyphs scores
  100, which lies in the interval from 70 to 100.
\<close>

theorem calculateConfidence_near_formula:
  "log10_accurate log10 \<Longrightarrow>
     (t = [] \<or> list_all is_space t \<longrightarrow>
        calculateConfidence log10 t = 0 \<and> spec_confidence t = 0)
   \<and> \<bar>real_of_int (calculateConfidence log10 t) - spec_confidence t\<bar> \<le> 1 / 2 + 1 / 10 ^ 12
   \<and> (1 / 10 ^ 12 < \<bar>frac (spec_confidence t) - 1 / 2\<bar> \<longrightarrow>
        calculateConfidence log10 t = round (spec_confidence t))
   \<and> spec_confidence tie_text = 195 / 2 \<and> calculateConfidence log10 tie_text = 97
   \<and> (length (spec_tokens t) = 50 \<and> spec_avg_token_length t = 6 \<and> spec_glyph_fraction t = 0
        \<longrightarrow> calculateConfidence log10 t = 100
          \<and> 70 \<le> calculateConfidence log10 t \<and> calculateConfidence log10 t \<le> 100)"
proof -
  assume acc: "log10_accurate log10"
  have 1: "t = [] \<or> list_all is_space t \<longrightarrow>
        calculateConfidence log10 t = 0 \<and> spec_confidence t = 0"
    by (auto simp: calculateConfidence_blank spec_confidence_def)
  have 5: "length (spec_tokens t) = 50 \<and> spec_avg_token_length t = 6 \<and> spec_glyph_fraction t = 0
        \<longrightarrow> calculateConfidence log10 t = 100
          \<and> 70 \<le> calculateConfidence log10 t \<and> calculateConfidence log10 t \<le> 100"
    using fifty_tokens_of_six [OF acc, of t] by simp
  from 1 calculateConfidence_close [OF acc, of t] tie_text_spec tie_text_score [OF acc] 5
  show ?thesis by blast
qed

lemma fifty_tokens_words: "words_of fifty_tokens = replicate 50 ''abcdef''"
  unfolding fifty_tokens_def by code_simp

lemma fifty_tokens_clean: "filter is_error_char fifty_tokens = []"
  unfolding fifty_tokens_def by code_simp

lemma fifty_tokens_sum: "sum_list (map length (replicate 50 ''abcdef'')) = 300"
  by code_simp

text \<open>
  Fifty tokens of six letters each, scored with a correctly rounded \<^verbatim>\<open>Math.log10\<close>.
\<close>

theorem calculateConfidence_near_formula_witness:
  "length (spec_tokens fifty_tokens) = 50 \<and> spec_avg_token_length fifty_tokens = 6
   \<and> spec_glyph_fraction fifty_tokens = 0
   \<and> calculateConfidence correctly_rounded_log10 fifty_tokens = 100
   \<and> spec_confidence tie_text = 195 / 2
   \<and> calculateConfidence correctly_rounded_log10 tie_text = 97"
proof -
  have w: "length (spec_tokens fifty_tokens) = 50"
    by (simp add: spec_tokens_def fifty_tokens_words)
  have "sum_list (map length (words_of fifty_tokens)) = 300"
    unfolding fifty_tokens_words by (rule fifty_tokens_sum)
  then have a: "spec_avg_token_length fifty_tokens = 6"
    by (simp add: spec_avg_token_length_def spec_tokens_def fifty_tokens_words)
  have g: "spec_glyph_fraction fifty_tokens = 0"
    by (simp add: spec_glyph_fraction_def fifty_tokens_clean)
  note inst = calculateConfidence_near_formula [OF correctly_rounded_log10_accurate,
      of fifty_tokens]
  from inst w a g have c: "calculateConfidence correctly_rounded_log10 fifty_tokens = 100"
    by blast
  from inst have t: "spec_confidence tie_text = 195 / 2"
    "calculateConfidence correctly_rounded_log10 tie_text = 97"
    by blast+
  from w a g c t show ?thesis by (simp only: simp_thms)
qed

text \<open>
  Claim C6 as stated fails: for the text \<open>ab?\<close> the reference formula gives 88/3,
  and the code returns 29.
\<close>

theorem calculateConfidence_not_formula:
  "spec_confidence ''ab?'' = 88 / 3
   \<and> calculateConfidence correctly_rounded_log10 ''ab?'' = 29
   \<and> real_of_int (calculateConfidence correctly_rounded_log10 ''ab?'') \<noteq> spec_confidence ''ab?''"
  by (simp add: ab_spec ab_score [OF correctly_rounded_log10_accurate])

subsection \<open>Infinite scrolling\<close>

declare scroll_loop.simps [simp del]


lemma scroll_loop_bound:
  "scroll_loop e m t p k = (cs, n, r) \<Longrightarrow> int n \<le> max (int k) m"
proof (induction e m t p k arbitrary: cs n r rule: scroll_loop.induct)
  case (1 e m t p k)
  show ?case using "1.prems" "1.IH"
    by (subst (asm) scroll_loop.simps)
       (fastforce split: if_splits sum.splits option.splits prod.splits)
qed























subsection \<open>Crawl jobs\<close>

lemma andThen_preserves:
  assumes "\<And>s. P s \<Longrightarrow> P (fst (f s))" and "\<And>s. P s \<Longrightarrow> P (fst (g s))" and "P st"
  shows "P (fst (andThen f g st))"
proof (cases "f st")
  case (Pair st1 thr)
  with assms(1) [OF assms(3)] have p1: "P st1" by simp
  show ?thesis
  proof (cases thr)
    case None
    with Pair assms(2) [OF p1] show ?thesis by (simp add: andThen_def)
  next
    case (Some msg)
    with Pair p1 show ?thesis by (simp add: andThen_def)
  qed
qed

lemma nv_obj_update:
  "no_visitedUrls w \<Longrightarrow> (\<And>cd. cd_visitedUrls (f cd) = cd_visitedUrls cd) \<Longrightarrow>
   no_visitedUrls (obj_update w r f)"
  by (simp add: no_visitedUrls_def obj_update_def)

lemma heap_updateOne [simp]: "heap (updateOne w cid f) = heap w"
  by (simp add: updateOne_def split: option.splits)

lemma heap_log_calls [simp]: "heap (log_calls w cs) = heap w"
  by (simp add: log_calls_def)

lemma nv_updateOne [simp]: "no_visitedUrls (updateOne w cid f) = no_visitedUrls w"
  by (simp add: no_visitedUrls_def)

lemma nv_log_calls [simp]: "no_visitedUrls (log_calls w cs) = no_visitedUrls w"
  by (simp add: no_visitedUrls_def)

lemma nv_updateCrawlStatus:
  "no_visitedUrls w \<Longrightarrow> no_visitedUrls (updateCrawlStatus w cid s m)"
  by (auto simp: updateCrawlStatus_def Let_def intro!: nv_obj_update split: option.splits)

lemma nv_fields [simp]:
  "no_visitedUrls (w\<lparr>fresh := n\<rparr>) = no_visitedUrls w"
  "no_visitedUrls (w\<lparr>now := t\<rparr>) = no_visitedUrls w"
  "no_visitedUrls (w\<lparr>activeCrawls := a\<rparr>) = no_visitedUrls w"
  "no_visitedUrls (w\<lparr>db := d\<rparr>) = no_visitedUrls w"
  "no_visitedUrls (w\<lparr>ext_calls := c\<rparr>) = no_visitedUrls w"
  "no_visitedUrls (w\<lparr>stopCalls := s\<rparr>) = no_visitedUrls w"
  by (simp_all add: no_visitedUrls_def)

lemma nv_closePages: "no_visitedUrls w \<Longrightarrow> no_visitedUrls (fst (closePages w r i))"
  by (simp add: closePages_def)

lemma nv_cleanupCrawl: "no_visitedUrls w \<Longrightarrow> no_visitedUrls (fst (cleanupCrawl w cid))"
  by (auto simp: cleanupCrawl_def case_prod_beta nv_closePages split: option.splits)

lemma nv_cleanupCrawl_resume:
  "no_visitedUrls w \<Longrightarrow> no_visitedUrls (fst (cleanupCrawl_resume w cid r pc))"
  by (cases pc) (simp_all add: cleanupCrawl_resume_def case_prod_beta nv_closePages)

lemma nv_ocr:
  "no_visitedUrls w \<Longrightarrow> no_visitedUrls (fst (processScreenshotWithOCR e w cid path u))"
  by (auto simp: processScreenshotWithOCR_def Let_def split: option.splits)

lemma nv_navigateStage:
  "no_visitedUrls (fst st) \<Longrightarrow> no_visitedUrls (fst (fst (navigateStage e u st)))"
  by (cases st) (auto simp: navigateStage_def Let_def split: option.splits)

lemma nv_scrollStage:
  "no_visitedUrls (fst st) \<Longrightarrow> no_visitedUrls (fst (fst (scrollStage e st)))"
  by (cases st) (auto simp: scrollStage_def Let_def)

lemma nv_captureStage:
  "no_visitedUrls (fst st) \<Longrightarrow> no_visitedUrls (fst (fst (captureStage e u st)))"
  by (cases st) (auto simp: captureStage_def Let_def intro!: nv_ocr nv_obj_update split: option.splits)

lemma nv_linkStage:
  "no_visitedUrls (fst st) \<Longrightarrow> no_visitedUrls (fst (fst (linkStage e d st)))"
  by (cases st) (auto simp: linkStage_def Let_def split: sum.splits)

lemma nv_recordStage:
  "no_visitedUrls (fst st) \<Longrightarrow> no_visitedUrls (fst (fst (recordStage u st)))"
  by (cases st) (auto simp: recordStage_def)

lemma nv_adviceStage:
  "no_visitedUrls (fst st) \<Longrightarrow> no_visitedUrls (fst (fst (adviceStage e u d st)))"
  by (cases st) (auto simp: adviceStage_def Let_def split: sum.splits option.splits)

lemma nv_processUrl:
  "no_visitedUrls (fst st) \<Longrightarrow> no_visitedUrls (fst (fst (processUrl e u d st)))"
  unfolding processUrl_def
  by (intro andThen_preserves [where P = "\<lambda>s. no_visitedUrls (fst s)"]
      nv_navigateStage nv_scrollStage nv_captureStage nv_linkStage nv_recordStage nv_adviceStage)

lemma nv_recordError: "no_visitedUrls w \<Longrightarrow> no_visitedUrls (recordError w p u m)"
  by (auto simp: recordError_def Let_def intro!: nv_obj_update)

lemma nv_loopBody:
  assumes "no_visitedUrls (fst st)"
  shows "no_visitedUrls (fst (loopBody e st))"
proof (cases st)
  case (Pair w p)
  show ?thesis
  proof (cases "p_urlQueue p")
    case Nil
    with Pair assms show ?thesis by (simp add: loopBody_def)
  next
    case (Cons a rest)
    obtain u d where a: "a = (u, d)" by (cases a)
    define st0 where "st0 = (w, p\<lparr>p_urlQueue := rest, p_visitedUrls := set_add (p_visitedUrls p) u\<rparr>)"
    have "no_visitedUrls (fst st0)" using assms Pair by (simp add: st0_def)
    then have nv: "no_visitedUrls (fst (fst (processUrl e u d st0)))" by (rule nv_processUrl)
    obtain w1 p1 thr where r: "processUrl e u d st0 = ((w1, p1), thr)"
      by (cases "processUrl e u d st0") auto
    with nv have "no_visitedUrls w1" by simp
    then show ?thesis using Pair Cons a r assms
      by (cases thr) (auto simp: loopBody_def Let_def st0_def intro: nv_recordError)
  qed
qed

lemma nv_leave: "no_visitedUrls (fst st) \<Longrightarrow> no_visitedUrls (fst (leave pending st))"
  by (cases st; cases pending) (simp_all add: leave_def nv_updateCrawlStatus)

lemma nv_cleaning:
  "no_visitedUrls (fst res) \<Longrightarrow> no_visitedUrls (fst (cleaning pending res p))"
  by (cases res) (auto simp: cleaning_def nv_leave split: option.splits)

lemma nv_tick: "no_visitedUrls (fst st) \<Longrightarrow> no_visitedUrls (fst (tick e st))"
  by (cases st)
     (auto simp: tick_def afterLoop_def pageSettled_def Let_def
       intro!: nv_loopBody [where st = "(a, b)" for a b, simplified] nv_cleaning nv_cleanupCrawl
         nv_cleanupCrawl_resume nv_updateCrawlStatus nv_obj_update
       split: phase.splits option.splits)

lemma nv_processCrawl:
  "no_visitedUrls w \<Longrightarrow> no_visitedUrls (fst (processCrawl w cid u d opts))"
  by (auto simp: processCrawl_def intro: nv_updateCrawlStatus split: option.splits)

lemma nv_heap_upd:
  "no_visitedUrls w \<Longrightarrow> cd_visitedUrls cd = None \<Longrightarrow>
   no_visitedUrls (w\<lparr>heap := (heap w)(r := cd)\<rparr>)"
  by (simp add: no_visitedUrls_def)

lemma nv_startCrawl:
  assumes "no_visitedUrls w"
  shows "no_visitedUrls (fst (startCrawl w cid u d opts launch))"
proof -
  have "no_visitedUrls (fst (processCrawl w2 cid u d opts))"
    if "no_visitedUrls w2" for w2
    using that by (rule nv_processCrawl)
  then show ?thesis
    using assms
    by (auto simp: startCrawl_def Let_def no_visitedUrls_def split: option.splits prod.splits
        dest!: arg_cong [where f = fst])
qed

lemma nv_pauseCrawl: "no_visitedUrls w \<Longrightarrow> no_visitedUrls (fst (pauseCrawl w cid))"
  by (auto simp: pauseCrawl_def intro!: nv_obj_update split: option.splits)

lemma fst_stopping [simp]: "fst (stopping res) = fst res"
  by (cases res) (auto simp: stopping_def split: option.splits)

lemma nv_stopCrawl: "no_visitedUrls w \<Longrightarrow> no_visitedUrls (fst (stopCrawl w cid))"
  by (auto simp: stopCrawl_def intro!: nv_obj_update split: option.splits)

lemma nv_stopCrawl_resume:
  "no_visitedUrls w \<Longrightarrow> no_visitedUrls (fst (stopCrawl_resume w cid pos))"
  by (cases pos) (simp_all add: stopCrawl_resume_def nv_cleanupCrawl nv_cleanupCrawl_resume)

lemma nv_resumeCrawl:
  assumes "no_visitedUrls w"
  shows "no_visitedUrls (fst (resumeCrawl w cid))"
proof (cases "activeCrawl w cid")
  case None
  with assms show ?thesis by (simp add: resumeCrawl_def)
next
  case (Some a)
  obtain r cd where a: "a = (r, cd)" by (cases a)
  show ?thesis
  proof (cases "cd_status cd = Paused")
    case False
    with Some a assms show ?thesis by (simp add: resumeCrawl_def)
  next
    case True
    define w1 where "w1 = updateOne (obj_update w r (\<lambda>cd. cd\<lparr>cd_status := Running\<rparr>)) cid
                           (\<lambda>j. j\<lparr>j_status := Running, j_resumedAt := Some (now w)\<rparr>)"
    have "no_visitedUrls w1" using assms by (simp add: w1_def nv_obj_update)
    then have "no_visitedUrls (fst (processCrawl w1 cid (cd_url cd) (cd_depth cd) (cd_options cd)))"
      by (rule nv_processCrawl)
    with Some a True show ?thesis
      by (simp add: resumeCrawl_def Let_def w1_def case_prod_beta)
  qed
qed

lemma nv_step: "no_visitedUrls (fst sv) \<Longrightarrow> no_visitedUrls (fst (step sv ev))"
proof (cases sv)
  case (Pair w ps)
  assume a: "no_visitedUrls (fst sv)"
  show ?thesis
  proof (cases ev)
    case (StartCrawl cid u d opts launch)
    with Pair a nv_startCrawl [of w cid u d opts launch] show ?thesis
      by (auto split: prod.splits)
  next
    case (PauseCrawl cid)
    with Pair a show ?thesis by (simp add: nv_pauseCrawl)
  next
    case (ResumeCrawl cid)
    with Pair a nv_resumeCrawl [of w cid] show ?thesis by (auto split: prod.splits)
  next
    case (StopCrawl cid)
    with Pair a nv_stopCrawl [of w cid] show ?thesis by (auto split: prod.splits)
  next
    case (StopTurn k)
    with Pair a nv_stopCrawl_resume [of w "s_crawlId (stopCalls w ! k)" "s_at (stopCalls w ! k)"]
    show ?thesis by (auto split: prod.splits)
  next
    case (Tick k e)
    with Pair a nv_tick [of "(w, ps ! k)" e] show ?thesis by (auto split: prod.splits)
  next
    case (Clock t)
    with Pair a show ?thesis by simp
  qed
qed

lemma nv_run: "no_visitedUrls (fst (run evs))"
proof (induction evs rule: rev_induct)
  case Nil
  show ?case by (simp add: run_def initial_def no_visitedUrls_def unallocated_def)
next
  case (snoc ev evs)
  then show ?case by (simp add: run_def nv_step)
qed

text \<open>
  Claim C10. In every state the service can reach, the status reported for a job
  that is in \<^verbatim>\<open>activeCrawls\<close> has \<^verbatim>\<open>pagesProcessed\<close> equal to 0: the object stored in
  \<^verbatim>\<open>activeCrawls\<close> is created without the property \<^verbatim>\<open>visitedUrls\<close> and nothing
  assigns it, the visited URLs being a local variable of \<^verbatim>\<open>processCrawl\<close>.
\<close>

theorem getCrawlStatus_active_pagesProcessed:
  "activeCrawls (fst (run evs)) cid \<noteq> None \<Longrightarrow>
     \<exists>s. getCrawlStatus (fst (run evs)) cid = Some s \<and> st_isActive s
         \<and> st_pagesProcessed s = 0"
  using nv_run [of evs]
  by (auto simp: getCrawlStatus_def activeCrawl_def no_visitedUrls_def)

lemmas run_defs = run_def initial_def startCrawl_def processCrawl_def activeCrawl_def
  spawn_def tick_def pageSettled_def obj_update_def set_add_def loopCondition_def loopBody_def
  processUrl_def andThen_def navigateStage_def scrollStage_def captureStage_def linkStage_def
  recordStage_def adviceStage_def log_calls_def updateOne_def extractLinks_def new_Set_def
  pauseCrawl_def resumeCrawl_def stopCrawl_def afterLoop_def updateCrawlStatus_def
  cleanupCrawl_def updateData_def recordError_def unshiftPriority_def Let_def
  closePages_def cleanupCrawl_resume_def leave_def cleaning_def stopping_def
  stopCrawl_resume_def

lemmas sample_defs = plain_options_def page_with_def still_page_def

text \<open>After one processed page the store counts 1 and the status query reports 0.\<close>

theorem getCrawlStatus_active_pagesProcessed_witness:
  "activeCrawls (fst (run one_page_run)) ''job'' \<noteq> None
   \<and> map_option j_pagesProcessed (db (fst (run one_page_run)) ''job'') = Some 1
   \<and> map_option st_pagesProcessed (getCrawlStatus (fst (run one_page_run)) ''job'') = Some 0"
proof -
  have a: "activeCrawls (fst (run one_page_run)) ''job'' \<noteq> None"
    by (simp add: one_page_run_def run_defs sample_defs)
  have d: "map_option j_pagesProcessed (db (fst (run one_page_run)) ''job'') = Some 1"
    by (simp add: one_page_run_def run_defs sample_defs)
  from getCrawlStatus_active_pagesProcessed [OF a] d a show ?thesis by auto
qed

lemma activeCrawls_updateOne [simp]: "activeCrawls (updateOne w cid f) = activeCrawls w"
  by (simp add: updateOne_def split: option.splits)

lemma activeCrawls_obj_update [simp]: "activeCrawls (obj_update w r f) = activeCrawls w"
  by (simp add: obj_update_def)

lemma ext_calls_updateOne [simp]: "ext_calls (updateOne w cid f) = ext_calls w"
  by (simp add: updateOne_def split: option.splits)

lemma ext_calls_obj_update [simp]: "ext_calls (obj_update w r f) = ext_calls w"
  by (simp add: obj_update_def)

lemma js_log_calls [simp]: "job_statuses (log_calls w cs) = job_statuses w"
  by (simp add: job_statuses_def log_calls_def)

lemma js_obj_update:
  "(\<And>cd. cd_status (f cd) = cd_status cd) \<Longrightarrow> job_statuses (obj_update w r f) = job_statuses w"
  by (auto simp: job_statuses_def obj_update_def)

lemma js_updateOne:
  "(\<And>j. j_status (f j) = j_status j) \<Longrightarrow> job_statuses (updateOne w cid f) = job_statuses w"
  by (auto simp: job_statuses_def updateOne_def split: option.splits)

lemma js_ocr: "job_statuses (fst (processScreenshotWithOCR e w cid path u)) = job_statuses w"
  by (simp add: processScreenshotWithOCR_def Let_def js_updateOne split: option.splits)

lemma js_navigateStage: "job_statuses (fst (fst (navigateStage e u st))) = job_statuses (fst st)"
  by (cases st) (simp add: navigateStage_def Let_def split: option.splits)

lemma js_scrollStage: "job_statuses (fst (fst (scrollStage e st))) = job_statuses (fst st)"
  by (cases st) (simp add: scrollStage_def Let_def)

lemma js_captureStage: "job_statuses (fst (fst (captureStage e u st))) = job_statuses (fst st)"
  by (cases st) (simp add: captureStage_def Let_def js_ocr js_obj_update split: option.splits)

lemma js_linkStage: "job_statuses (fst (fst (linkStage e d st))) = job_statuses (fst st)"
  by (cases st) (simp add: linkStage_def Let_def split: sum.splits)

lemma js_recordStage: "job_statuses (fst (fst (recordStage u st))) = job_statuses (fst st)"
  by (cases st) (simp add: recordStage_def js_updateOne)

lemma js_adviceStage: "job_statuses (fst (fst (adviceStage e u d st))) = job_statuses (fst st)"
  by (cases st) (simp add: adviceStage_def Let_def split: sum.splits option.splits)

lemma js_processUrl: "job_statuses (fst (fst (processUrl e u d st))) = job_statuses (fst st)"
proof -
  have "(\<lambda>s. job_statuses (fst s) = job_statuses (fst st)) (fst (processUrl e u d st))"
    unfolding processUrl_def
    by (intro andThen_preserves [where P = "\<lambda>s. job_statuses (fst s) = job_statuses (fst st)"])
       (simp_all add: js_navigateStage js_scrollStage js_captureStage js_linkStage
         js_recordStage js_adviceStage)
  then show ?thesis by simp
qed

lemma js_recordError: "job_statuses (recordError w p u m) = job_statuses w"
  by (simp add: recordError_def Let_def js_updateOne js_obj_update)

lemma js_loopBody: "job_statuses (fst (loopBody e st)) = job_statuses (fst st)"
proof (cases st)
  case (Pair w p)
  show ?thesis
  proof (cases "p_urlQueue p")
    case Nil
    with Pair show ?thesis by (simp add: loopBody_def)
  next
    case (Cons a rest)
    obtain u d where a: "a = (u, d)" by (cases a)
    define st0 where "st0 = (w, p\<lparr>p_urlQueue := rest, p_visitedUrls := set_add (p_visitedUrls p) u\<rparr>)"
    have js: "job_statuses (fst (fst (processUrl e u d st0))) = job_statuses w"
      by (simp add: js_processUrl st0_def)
    obtain w1 p1 thr where r: "processUrl e u d st0 = ((w1, p1), thr)"
      by (cases "processUrl e u d st0") auto
    with js have "job_statuses w1 = job_statuses w" by simp
    then show ?thesis using Pair Cons a r
      by (cases thr) (auto simp: loopBody_def Let_def st0_def js_recordError)
  qed
qed

lemma tick_in_loop:
  "p_phase p = InLoop \<Longrightarrow> cd_status (heap w (p_crawlData p)) = Running \<Longrightarrow>
   p_urlQueue p \<noteq> [] \<Longrightarrow> tick e (w, p) = loopBody e (w, p)"
  by (simp add: tick_def loopCondition_def)

lemma loopBody_take:
  "p_urlQueue p = (u, d) # rest \<Longrightarrow> u \<notin> set (p_visitedUrls p) \<Longrightarrow> d \<le> p_maxDepth p \<Longrightarrow>
   loopBody e (w, p) =
     (case processUrl e u d (w, p\<lparr>p_urlQueue := rest, p_visitedUrls := p_visitedUrls p @ [u]\<rparr>) of
        (st1, None) \<Rightarrow> st1
      | ((w1, p2), Some msg) \<Rightarrow> (recordError w1 p2 u msg, p2))"
  by (simp add: loopBody_def Let_def set_add_def)

text \<open>
  Claim C9. When the navigation to a URL taken from the queue is rejected (by
  \<^verbatim>\<open>page.goto\<close> or by \<^verbatim>\<open>page.waitForLoadState\<close>), only that URL is abandoned: the
  error \<^verbatim>\<open>{url, message, timestamp}\<close> is appended to the errors of the job in memory
  and in the store, so the number of errors grows by one; the only calls made are
  those of the navigation, so no screenshot is taken and nothing is recognised; the
  status of every job stays what it was; and the loop goes on with the rest of the
  queue.
\<close>

theorem navigation_failure_abandons_url:
  assumes "p_phase p = InLoop" and "cd_status (heap w (p_crawlData p)) = Running"
    and "p_urlQueue p = (u, d) # rest" and "u \<notin> set (p_visitedUrls p)"
    and "d \<le> p_maxDepth p"
    and "e_goto e = Some msg \<or> (e_goto e = None \<and> e_loadState e = Some msg)"
  shows "\<exists>w1. tick e (w, p)
            = (w1, p\<lparr>p_urlQueue := rest, p_visitedUrls := p_visitedUrls p @ [u]\<rparr>)
      \<and> ext_calls w1 = ext_calls w @ Goto (p_page p) u #
           (if e_goto e = None then [WaitForLoadState (p_page p)] else [])
      \<and> cd_errors (heap w1 (p_crawlData p))
           = cd_errors (heap w (p_crawlData p)) @ [UrlError u msg (now w)]
      \<and> length (cd_errors (heap w1 (p_crawlData p)))
           = length (cd_errors (heap w (p_crawlData p))) + 1
      \<and> map_option j_errors (db w1 (p_crawlId p))
           = map_option (\<lambda>j. j_errors j @ [\<lparr>de_url = u, de_message = msg, de_timestamp = now w\<rparr>])
               (db w (p_crawlId p))
      \<and> cd_capturedScreenshots (heap w1 (p_crawlData p))
           = cd_capturedScreenshots (heap w (p_crawlData p))
      \<and> job_statuses w1 = job_statuses w
      \<and> (rest \<noteq> [] \<longrightarrow>
           loopCondition (w1, p\<lparr>p_urlQueue := rest, p_visitedUrls := p_visitedUrls p @ [u]\<rparr>))"
proof -
  have t: "tick e (w, p) = loopBody e (w, p)"
    using assms(1,2,3) by (simp add: tick_in_loop)
  have js: "job_statuses (fst (loopBody e (w, p))) = job_statuses w"
    by (simp add: js_loopBody)
  from assms(6) show ?thesis
  proof
    assume g: "e_goto e = Some msg"
    then show ?thesis
      using js assms(2)
      unfolding t loopBody_take [OF assms(3,4,5)]
      by (auto simp: processUrl_def andThen_def navigateStage_def recordError_def Let_def
          log_calls_def obj_update_def updateOne_def loopCondition_def job_statuses_def
          split: option.splits)
  next
    assume g: "e_goto e = None \<and> e_loadState e = Some msg"
    then show ?thesis
      using js assms(2)
      unfolding t loopBody_take [OF assms(3,4,5)]
      by (auto simp: processUrl_def andThen_def navigateStage_def recordError_def Let_def
          log_calls_def obj_update_def updateOne_def loopCondition_def job_statuses_def
          split: option.splits)
  qed
qed

lemma one_page_state:
  "p_phase (snd (run one_page_run) ! 0) = InLoop"
  "p_crawlData (snd (run one_page_run) ! 0) = 0"
  "p_crawlId (snd (run one_page_run) ! 0) = ''job''"
  "cd_status (heap (fst (run one_page_run)) 0) = Running"
  "p_urlQueue (snd (run one_page_run) ! 0) = [(''http://a/x'', 1), (''http://a/y'', 1)]"
  "p_visitedUrls (snd (run one_page_run) ! 0) = [''http://a/'']"
  "p_maxDepth (snd (run one_page_run) ! 0) = 2"
  "cd_errors (heap (fst (run one_page_run)) 0) = []"
  by (simp_all add: one_page_run_def run_defs sample_defs)

theorem navigation_failure_abandons_url_witness:
  "p_phase (snd (run one_page_run) ! 0) = InLoop
   \<and> cd_status (heap (fst (run one_page_run)) 0) = Running
   \<and> p_urlQueue (snd (run one_page_run) ! 0) = [(''http://a/x'', 1), (''http://a/y'', 1)]
   \<and> e_goto failing_navigation = Some ''net::ERR_NAME_NOT_RESOLVED''
   \<and> p_urlQueue (snd (tick failing_navigation
          (fst (run one_page_run), snd (run one_page_run) ! 0))) = [(''http://a/y'', 1)]
   \<and> length (cd_errors (heap (fst (tick failing_navigation
          (fst (run one_page_run), snd (run one_page_run) ! 0))) 0)) = 1
   \<and> job_statuses (fst (tick failing_navigation
          (fst (run one_page_run), snd (run one_page_run) ! 0)))
        = job_statuses (fst (run one_page_run))
   \<and> loopCondition (tick failing_navigation
          (fst (run one_page_run), snd (run one_page_run) ! 0))"
proof -
  have g: "e_goto failing_navigation = Some ''net::ERR_NAME_NOT_RESOLVED''
      \<or> (e_goto failing_navigation = None
          \<and> e_loadState failing_navigation = Some ''net::ERR_NAME_NOT_RESOLVED'')"
    by (simp add: failing_navigation_def)
  have u: "''http://a/x'' \<notin> set (p_visitedUrls (snd (run one_page_run) ! 0))"
    by (simp add: one_page_state)
  have d: "1 \<le> p_maxDepth (snd (run one_page_run) ! 0)"
    by (simp add: one_page_state)
  have r: "cd_status (heap (fst (run one_page_run)) (p_crawlData (snd (run one_page_run) ! 0)))
      = Running"
    by (simp add: one_page_state)
  from navigation_failure_abandons_url [OF one_page_state(1) r one_page_state(5) u d g]
  obtain w1 where
    "tick failing_navigation (fst (run one_page_run), snd (run one_page_run) ! 0)
       = (w1, (snd (run one_page_run) ! 0)\<lparr>p_urlQueue := [(''http://a/y'', 1)],
            p_visitedUrls := p_visitedUrls (snd (run one_page_run) ! 0) @ [''http://a/x'']\<rparr>)"
    "length (cd_errors (heap w1 (p_crawlData (snd (run one_page_run) ! 0))))
       = length (cd_errors (heap (fst (run one_page_run))
                  (p_crawlData (snd (run one_page_run) ! 0)))) + 1"
    "job_statuses w1 = job_statuses (fst (run one_page_run))"
    "loopCondition (w1, (snd (run one_page_run) ! 0)\<lparr>p_urlQueue := [(''http://a/y'', 1)],
            p_visitedUrls := p_visitedUrls (snd (run one_page_run) ! 0) @ [''http://a/x'']\<rparr>)"
    by auto
  then show ?thesis
    using g by (simp add: one_page_state failing_navigation_def)
qed

lemma andThen_ok: "f st = (st1, None) \<Longrightarrow> andThen f g st = g st1"
  by (simp add: andThen_def)

lemma andThen_calls:
  assumes "\<And>s. \<exists>cs. ext_calls (fst (fst (f s))) = ext_calls (fst s) @ cs"
    and "\<And>s. \<exists>cs. ext_calls (fst (fst (g s))) = ext_calls (fst s) @ cs"
  shows "\<exists>cs. ext_calls (fst (fst (andThen f g st))) = ext_calls (fst st) @ cs"
proof (cases "f st")
  case (Pair st1 thr)
  from assms(1) [of st] Pair obtain cs where c1: "ext_calls (fst st1) = ext_calls (fst st) @ cs"
    by auto
  show ?thesis
  proof (cases thr)
    case None
    from assms(2) [of st1] obtain cs' where "ext_calls (fst (fst (g st1))) = ext_calls (fst st1) @ cs'"
      by auto
    with c1 Pair None show ?thesis by (simp add: andThen_def)
  next
    case (Some m)
    with Pair c1 show ?thesis by (simp add: andThen_def)
  qed
qed

lemma calls_recordStage: "\<exists>cs. ext_calls (fst (fst (recordStage u s))) = ext_calls (fst s) @ cs"
  by (cases s) (simp add: recordStage_def updateOne_def split: option.splits)

lemma calls_adviceStage: "\<exists>cs. ext_calls (fst (fst (adviceStage e u d s))) = ext_calls (fst s) @ cs"
  by (cases s) (simp add: adviceStage_def Let_def log_calls_def split: sum.splits option.splits)

lemma unshiftPriority_prefix: "\<exists>pre. unshiftPriority vs d q us = pre @ q"
proof (induction us arbitrary: q)
  case Nil
  show ?case by (simp add: unshiftPriority_def)
next
  case (Cons a us)
  from Cons [of "if a \<in> set vs then q else (a, d + 1) # q"]
  obtain pre where "unshiftPriority vs d (if a \<in> set vs then q else (a, d + 1) # q) us
      = pre @ (if a \<in> set vs then q else (a, d + 1) # q)" by blast
  then have "unshiftPriority vs d q (a # us) = pre @ (if a \<in> set vs then q else (a, d + 1) # q)"
    by (simp add: unshiftPriority_def)
  then show ?case by (cases "a \<in> set vs") (auto intro: exI [of _ "pre @ [(a, d + 1)]"])
qed

lemma queue_recordStage: "p_urlQueue (snd (fst (recordStage u s))) = p_urlQueue (snd s)"
  by (cases s) (simp add: recordStage_def)

lemma queue_adviceStage:
  "\<exists>pre. p_urlQueue (snd (fst (adviceStage e u d s))) = pre @ p_urlQueue (snd s)"
  using unshiftPriority_prefix
  by (cases s) (auto simp: adviceStage_def Let_def split: sum.splits option.splits)

lemma scrollStage_result:
  assumes "scrollStage e (w, p) = ((w1, p1), thr)"
  shows "p1 = p" and "\<exists>cs. ext_calls w1 = ext_calls w @ cs"
    and "thr = (if opt_handleInfiniteScroll (p_options p) \<noteq> Some False
                then thrown (handleInfiniteScroll (e_scroll e) (p_options p)) else None)"
  using assms by (auto simp: scrollStage_def Let_def log_calls_def split: if_splits)

lemma calls_ocr:
  "\<exists>cs. ext_calls (fst (processScreenshotWithOCR e w cid path u)) = ext_calls w @ cs"
  by (simp add: processScreenshotWithOCR_def Let_def log_calls_def updateOne_def
      split: option.splits)

lemma captureStage_result:
  assumes "captureStage e u (w, p) = ((w1, p1), thr)"
  shows "p1 = p" and "\<exists>cs. ext_calls w1 = ext_calls w @ cs" and "thr = e_screenshot e"
proof -
  show "p1 = p" "thr = e_screenshot e"
    using assms by (auto simp: captureStage_def Let_def split: option.splits if_splits)
  show "\<exists>cs. ext_calls w1 = ext_calls w @ cs"
  proof (cases "e_screenshot e")
    case (Some m)
    with assms show ?thesis by (auto simp: captureStage_def Let_def log_calls_def)
  next
    case None
    define path where "path = cd_screenshotDir (heap w (p_crawlData p)) @ ''/'' @ e_screenshotName e"
    define w2 where "w2 = obj_update (log_calls w [Screenshot (p_page p) path]) (p_crawlData p)
       (\<lambda>cd. cd\<lparr>cd_capturedScreenshots := cd_capturedScreenshots cd @ [path]\<rparr>)"
    have e2: "ext_calls w2 = ext_calls w @ [Screenshot (p_page p) path]"
      by (simp add: w2_def obj_update_def log_calls_def)
    have w1: "w1 = (if opt_performOcr (p_options p) \<noteq> Some False
                        \<and> opt_skipOcr (p_options p) \<noteq> Some True
                     then fst (processScreenshotWithOCR (e_ocr e) w2 (p_crawlId p) path u)
                     else w2)"
      using assms None by (auto simp: captureStage_def Let_def path_def w2_def split: if_splits)
    from calls_ocr [of "e_ocr e" w2 "p_crawlId p" path u] obtain cs where
      "ext_calls (fst (processScreenshotWithOCR (e_ocr e) w2 (p_crawlId p) path u))
         = ext_calls w2 @ cs" by blast
    with e2 w1 show ?thesis by (cases "opt_performOcr (p_options p) \<noteq> Some False
                        \<and> opt_skipOcr (p_options p) \<noteq> Some True") auto
  qed
qed

lemma tail_after_links:
  "\<exists>pre cs. p_urlQueue (snd (fst (andThen (recordStage u) (adviceStage e u d) s)))
              = pre @ p_urlQueue (snd s)
          \<and> ext_calls (fst (fst (andThen (recordStage u) (adviceStage e u d) s)))
              = ext_calls (fst s) @ cs"
proof -
  obtain s1 where r: "recordStage u s = (s1, None)"
    by (cases s) (simp add: recordStage_def)
  from queue_recordStage [of u s] calls_recordStage [of u s] r obtain cs1 where
    q1: "p_urlQueue (snd s1) = p_urlQueue (snd s)" and
    c1: "ext_calls (fst s1) = ext_calls (fst s) @ cs1" by auto
  from queue_adviceStage [of e u d s1] calls_adviceStage [of e u d s1] obtain pre cs2 where
    "p_urlQueue (snd (fst (adviceStage e u d s1))) = pre @ p_urlQueue (snd s1)"
    "ext_calls (fst (fst (adviceStage e u d s1))) = ext_calls (fst s1) @ cs2" by auto
  with q1 c1 r show ?thesis by (simp add: andThen_def)
qed

text \<open>
  Claim C8. When the recognition of the screenshot of a URL fails, \<^verbatim>\<open>processImage\<close>
  substitutes a result with empty text, confidence zero and the error message; the
  status of every job stays what it was; and when the depth of the URL is below the
  maximum depth the links of the page are extracted all the same, and those found
  are put at the end of the queue. (The stages before the recognition are taken
  to have succeeded, and recognition to be switched on.)
\<close>

theorem recognition_failure_isolated:
  assumes "p_phase p = InLoop" and "cd_status (heap w (p_crawlData p)) = Running"
    and "p_urlQueue p = (u, d) # rest" and "u \<notin> set (p_visitedUrls p)"
    and "d \<le> p_maxDepth p"
    and "e_goto e = None" and "e_loadState e = None"
    and "opt_handleInfiniteScroll (p_options p) \<noteq> Some False \<longrightarrow>
           thrown (handleInfiniteScroll (e_scroll e) (p_options p)) = None"
    and "e_screenshot e = None"
    and "opt_performOcr (p_options p) \<noteq> Some False" and "opt_skipOcr (p_options p) \<noteq> Some True"
    and "recognize (e_ocr e) = Inl msg"
  shows "processImage (e_ocr e) =
           \<lparr>analysisId = uuid (e_ocr e), ocr_text = [], confidence = 0, processed = False,
            ocr_error = Some msg\<rparr>
      \<and> job_statuses (fst (tick e (w, p))) = job_statuses w
      \<and> (d < p_maxDepth p \<longrightarrow>
           (\<exists>cs. ext_calls (fst (tick e (w, p))) = ext_calls w @ cs
                \<and> ExtractLinks (p_page p) \<in> set cs))
      \<and> (d < p_maxDepth p \<and> e_links e = Inr ls \<longrightarrow>
           (\<exists>pre. p_urlQueue (snd (tick e (w, p)))
                     = pre @ rest @ map (\<lambda>l. (l, d + 1)) (new_Set ls)))"
proof -
  define p0 where "p0 = p\<lparr>p_urlQueue := rest, p_visitedUrls := p_visitedUrls p @ [u]\<rparr>"
  have t: "tick e (w, p) = loopBody e (w, p)"
    using assms(1,2,3) by (simp add: tick_in_loop)
  have js: "job_statuses (fst (tick e (w, p))) = job_statuses w"
    by (simp add: t js_loopBody)
  have pi: "processImage (e_ocr e) =
           \<lparr>analysisId = uuid (e_ocr e), ocr_text = [], confidence = 0, processed = False,
            ocr_error = Some msg\<rparr>"
    using assms(12) by (simp add: processImage_def)
  obtain w3 cs3 where
    three: "processUrl e u d (w, p0)
      = andThen (linkStage e d) (andThen (recordStage u) (adviceStage e u d)) (w3, p0)"
    and c3: "ext_calls w3 = ext_calls w @ cs3"
  proof -
    have n: "navigateStage e u (w, p0)
        = ((log_calls w [Goto (p_page p) u, WaitForLoadState (p_page p)], p0), None)"
      using assms(6,7) by (simp add: navigateStage_def Let_def log_calls_def p0_def)
    obtain w2 p2 thr2 where s0: "scrollStage e
        (log_calls w [Goto (p_page p) u, WaitForLoadState (p_page p)], p0) = ((w2, p2), thr2)"
      by (cases "scrollStage e
        (log_calls w [Goto (p_page p) u, WaitForLoadState (p_page p)], p0)") auto
    from scrollStage_result [OF s0] assms(8)
    have s: "scrollStage e (log_calls w [Goto (p_page p) u, WaitForLoadState (p_page p)], p0)
        = ((w2, p0), None)" and c2: "\<exists>cs. ext_calls w2 = ext_calls w @ cs"
      using s0 by (auto simp: p0_def log_calls_def)
    obtain w3 q3 thr3 where c0: "captureStage e u (w2, p0) = ((w3, q3), thr3)"
      by (cases "captureStage e u (w2, p0)") auto
    from captureStage_result [OF c0] assms(9)
    have c: "captureStage e u (w2, p0) = ((w3, p0), None)"
      and c3: "\<exists>cs. ext_calls w3 = ext_calls w2 @ cs"
      using c0 by auto
    from c2 c3 obtain cs where "ext_calls w3 = ext_calls w @ cs" by auto
    moreover have "processUrl e u d (w, p0)
      = andThen (linkStage e d) (andThen (recordStage u) (adviceStage e u d)) (w3, p0)"
      by (simp add: processUrl_def
          andThen_ok [where f = "navigateStage e u" and st = "(w, p0)", OF n]
          andThen_ok [where f = "scrollStage e", OF s]
          andThen_ok [where f = "captureStage e u", OF c])
    ultimately show ?thesis using that by blast
  qed
  have body: "loopBody e (w, p) =
     (case processUrl e u d (w, p0) of
        (st1, None) \<Rightarrow> st1
      | ((w1, p2), Some msg) \<Rightarrow> (recordError w1 p2 u msg, p2))"
    using loopBody_take [OF assms(3,4,5)] by (simp add: p0_def)
  have links: "\<exists>cs. ext_calls (fst (tick e (w, p))) = ext_calls w @ cs
                \<and> ExtractLinks (p_page p) \<in> set cs" if lt: "d < p_maxDepth p"
  proof (cases "extractLinks e")
    case (Inl m)
    with lt have "linkStage e d (w3, p0) = ((log_calls w3 [ExtractLinks (p_page p)], p0), Some m)"
      by (simp add: linkStage_def Let_def p0_def)
    then show ?thesis
      unfolding t body three
      by (simp add: andThen_def recordError_def Let_def log_calls_def obj_update_def c3
          updateOne_def split: option.splits)
  next
    case (Inr links)
    define p4 where "p4 = p0\<lparr>p_urlQueue := p_urlQueue p0 @ map (\<lambda>l. (l, d + 1)) links\<rparr>"
    from Inr lt have l: "linkStage e d (w3, p0)
        = ((log_calls w3 [ExtractLinks (p_page p)], p4), None)"
      by (simp add: linkStage_def Let_def p0_def p4_def)
    from tail_after_links [of u e d "(log_calls w3 [ExtractLinks (p_page p)], p4)"]
    obtain cs where cs: "ext_calls (fst (fst (andThen (recordStage u) (adviceStage e u d)
          (log_calls w3 [ExtractLinks (p_page p)], p4))))
        = ext_calls (log_calls w3 [ExtractLinks (p_page p)]) @ cs" by auto
    obtain w5 p5 thr where r: "andThen (recordStage u) (adviceStage e u d)
          (log_calls w3 [ExtractLinks (p_page p)], p4) = ((w5, p5), thr)"
      by (cases "andThen (recordStage u) (adviceStage e u d)
          (log_calls w3 [ExtractLinks (p_page p)], p4)") auto
    with cs have "ext_calls w5 = ext_calls w @ cs3 @ [ExtractLinks (p_page p)] @ cs"
      by (simp add: log_calls_def c3)
    then show ?thesis
      unfolding t body three andThen_ok [where f = "linkStage e d", OF l] r
      by (cases thr)
         (auto simp: recordError_def Let_def obj_update_def updateOne_def split: option.splits)
  qed
  have queue: "\<exists>pre. p_urlQueue (snd (tick e (w, p)))
                     = pre @ rest @ map (\<lambda>l. (l, d + 1)) (new_Set ls)"
    if lt: "d < p_maxDepth p" and ls: "e_links e = Inr ls"
  proof -
    define p4 where "p4 = p0\<lparr>p_urlQueue := p_urlQueue p0 @ map (\<lambda>l. (l, d + 1)) (new_Set ls)\<rparr>"
    from ls lt have l: "linkStage e d (w3, p0)
        = ((log_calls w3 [ExtractLinks (p_page p)], p4), None)"
      by (simp add: linkStage_def Let_def p0_def p4_def extractLinks_def)
    from tail_after_links [of u e d "(log_calls w3 [ExtractLinks (p_page p)], p4)"]
    obtain pre where pre: "p_urlQueue (snd (fst (andThen (recordStage u) (adviceStage e u d)
          (log_calls w3 [ExtractLinks (p_page p)], p4)))) = pre @ p_urlQueue p4" by auto
    obtain w5 p5 thr where r: "andThen (recordStage u) (adviceStage e u d)
          (log_calls w3 [ExtractLinks (p_page p)], p4) = ((w5, p5), thr)"
      by (cases "andThen (recordStage u) (adviceStage e u d)
          (log_calls w3 [ExtractLinks (p_page p)], p4)") auto
    with pre have "p_urlQueue p5 = pre @ rest @ map (\<lambda>l. (l, d + 1)) (new_Set ls)"
      by (simp add: p4_def p0_def)
    then show ?thesis
      unfolding t body three andThen_ok [where f = "linkStage e d", OF l] r
      by (cases thr) auto
  qed
  from pi js links queue show ?thesis by blast
qed

lemma ocr_state:
  "p_phase (snd (run ocr_run) ! 0) = InLoop"
  "p_crawlData (snd (run ocr_run) ! 0) = 0"
  "cd_status (heap (fst (run ocr_run)) 0) = Running"
  "p_urlQueue (snd (run ocr_run) ! 0) = [(''http://a/'', 0)]"
  "p_visitedUrls (snd (run ocr_run) ! 0) = []"
  "p_maxDepth (snd (run ocr_run) ! 0) = 2"
  "p_options (snd (run ocr_run) ! 0) = ocr_options"
  by (simp_all add: ocr_run_def run_defs sample_defs)

theorem recognition_failure_isolated_witness:
  "p_phase (snd (run ocr_run) ! 0) = InLoop
   \<and> p_urlQueue (snd (run ocr_run) ! 0) = [(''http://a/'', 0)]
   \<and> p_maxDepth (snd (run ocr_run) ! 0) = 2
   \<and> opt_performOcr (p_options (snd (run ocr_run) ! 0)) \<noteq> Some False
   \<and> opt_skipOcr (p_options (snd (run ocr_run) ! 0)) \<noteq> Some True
   \<and> recognize (e_ocr (page_with [''http://a/x''])) = Inl ''no engine''
   \<and> confidence (processImage (e_ocr (page_with [''http://a/x'']))) = 0
   \<and> job_statuses (fst (tick (page_with [''http://a/x''])
          (fst (run ocr_run), snd (run ocr_run) ! 0))) = job_statuses (fst (run ocr_run))
   \<and> (\<exists>pre. p_urlQueue (snd (tick (page_with [''http://a/x''])
          (fst (run ocr_run), snd (run ocr_run) ! 0)))
        = pre @ [] @ map (\<lambda>l. (l, 0 + 1)) (new_Set [''http://a/x'']))"
proof -
  have r: "cd_status (heap (fst (run ocr_run)) (p_crawlData (snd (run ocr_run) ! 0))) = Running"
    by (simp add: ocr_state)
  have u: "''http://a/'' \<notin> set (p_visitedUrls (snd (run ocr_run) ! 0))"
    by (simp add: ocr_state)
  have d: "0 \<le> p_maxDepth (snd (run ocr_run) ! 0)" by (simp add: ocr_state)
  have e: "e_goto (page_with [''http://a/x'']) = None"
    "e_loadState (page_with [''http://a/x'']) = None"
    "e_screenshot (page_with [''http://a/x'']) = None"
    "recognize (e_ocr (page_with [''http://a/x''])) = Inl ''no engine''"
    "e_links (page_with [''http://a/x'']) = Inr [''http://a/x'']"
    by (simp_all add: page_with_def)
  have o: "opt_handleInfiniteScroll (p_options (snd (run ocr_run) ! 0)) \<noteq> Some False \<longrightarrow>
      thrown (handleInfiniteScroll (e_scroll (page_with [''http://a/x'']))
        (p_options (snd (run ocr_run) ! 0))) = None"
    "opt_performOcr (p_options (snd (run ocr_run) ! 0)) \<noteq> Some False"
    "opt_skipOcr (p_options (snd (run ocr_run) ! 0)) \<noteq> Some True"
    by (simp_all add: ocr_state ocr_options_def)
  note inst = recognition_failure_isolated [OF ocr_state(1) r ocr_state(4) u d e(1,2) o(1)
      e(3) o(2,3) e(4), of "[''http://a/x'']"]
  from inst have c: "confidence (processImage (e_ocr (page_with [''http://a/x'']))) = 0"
    by simp
  from inst have j: "job_statuses (fst (tick (page_with [''http://a/x''])
          (fst (run ocr_run), snd (run ocr_run) ! 0))) = job_statuses (fst (run ocr_run))"
    by blast
  from inst e(5) ocr_state(6)
  have q: "\<exists>pre. p_urlQueue (snd (tick (page_with [''http://a/x''])
          (fst (run ocr_run), snd (run ocr_run) ! 0)))
        = pre @ [] @ map (\<lambda>l. (l, 0 + 1)) (new_Set [''http://a/x''])"
    by simp
  from c j q e(4) o(2,3) ocr_state(1,4,6) show ?thesis by blast
qed

subsection \<open>The frontier\<close>

lemma dk_log_calls [simp]: "depth_ok (log_calls w cs) = depth_ok w"
  by (simp add: depth_ok_def log_calls_def)

lemma dk_updateOne [simp]: "depth_ok (updateOne w cid f) = depth_ok w"
  by (simp add: depth_ok_def)

lemma dk_obj_update:
  "depth_ok w \<Longrightarrow> (\<And>cd. cd_depth (f cd) = cd_depth cd) \<Longrightarrow> depth_ok (obj_update w r f)"
  by (simp add: depth_ok_def obj_update_def)

lemma dk_updateCrawlStatus: "depth_ok w \<Longrightarrow> depth_ok (updateCrawlStatus w cid s m)"
  by (auto simp: updateCrawlStatus_def Let_def intro!: dk_obj_update split: option.splits)

lemma dk_fields [simp]:
  "depth_ok (w\<lparr>fresh := n\<rparr>) = depth_ok w"
  "depth_ok (w\<lparr>now := t\<rparr>) = depth_ok w"
  "depth_ok (w\<lparr>db := d\<rparr>) = depth_ok w"
  "depth_ok (w\<lparr>ext_calls := c\<rparr>) = depth_ok w"
  "depth_ok (w\<lparr>stopCalls := s\<rparr>) = depth_ok w"
  by (simp_all add: depth_ok_def)

lemma dk_delete: "depth_ok w \<Longrightarrow> depth_ok (w\<lparr>activeCrawls := (activeCrawls w)(cid := None)\<rparr>)"
  by (simp add: depth_ok_def)

lemma dk_closePages: "depth_ok w \<Longrightarrow> depth_ok (fst (closePages w r i))"
  by (simp add: closePages_def)

lemma dk_cleanupCrawl: "depth_ok w \<Longrightarrow> depth_ok (fst (cleanupCrawl w cid))"
  by (auto simp: cleanupCrawl_def case_prod_beta dk_closePages split: option.splits)

lemma dk_cleanupCrawl_resume:
  "depth_ok w \<Longrightarrow> depth_ok (fst (cleanupCrawl_resume w cid r pc))"
  by (cases pc) (simp_all add: cleanupCrawl_resume_def case_prod_beta dk_closePages dk_delete)

lemma dk_ocr: "depth_ok w \<Longrightarrow> depth_ok (fst (processScreenshotWithOCR e w cid path u))"
  by (auto simp: processScreenshotWithOCR_def Let_def split: option.splits)

lemma dk_navigateStage: "depth_ok (fst st) \<Longrightarrow> depth_ok (fst (fst (navigateStage e u st)))"
  by (cases st) (auto simp: navigateStage_def Let_def split: option.splits)

lemma dk_scrollStage: "depth_ok (fst st) \<Longrightarrow> depth_ok (fst (fst (scrollStage e st)))"
  by (cases st) (auto simp: scrollStage_def Let_def)

lemma dk_captureStage: "depth_ok (fst st) \<Longrightarrow> depth_ok (fst (fst (captureStage e u st)))"
  by (cases st)
     (auto simp: captureStage_def Let_def intro!: dk_ocr dk_obj_update split: option.splits)

lemma dk_linkStage: "depth_ok (fst st) \<Longrightarrow> depth_ok (fst (fst (linkStage e d st)))"
  by (cases st) (auto simp: linkStage_def Let_def split: sum.splits)

lemma dk_recordStage: "depth_ok (fst st) \<Longrightarrow> depth_ok (fst (fst (recordStage u st)))"
  by (cases st) (auto simp: recordStage_def)

lemma dk_adviceStage: "depth_ok (fst st) \<Longrightarrow> depth_ok (fst (fst (adviceStage e u d st)))"
  by (cases st) (auto simp: adviceStage_def Let_def split: sum.splits option.splits)

lemma dk_processUrl: "depth_ok (fst st) \<Longrightarrow> depth_ok (fst (fst (processUrl e u d st)))"
  unfolding processUrl_def
  by (intro andThen_preserves [where P = "\<lambda>s. depth_ok (fst s)"]
      dk_navigateStage dk_scrollStage dk_captureStage dk_linkStage dk_recordStage dk_adviceStage)

lemma dk_recordError: "depth_ok w \<Longrightarrow> depth_ok (recordError w p u m)"
  by (auto simp: recordError_def Let_def intro!: dk_obj_update)

lemma dk_loopBody:
  assumes "depth_ok (fst st)"
  shows "depth_ok (fst (loopBody e st))"
proof (cases st)
  case (Pair w p)
  show ?thesis
  proof (cases "p_urlQueue p")
    case Nil
    with Pair assms show ?thesis by (simp add: loopBody_def)
  next
    case (Cons a rest)
    obtain u d where a: "a = (u, d)" by (cases a)
    define st0 where "st0 = (w, p\<lparr>p_urlQueue := rest, p_visitedUrls := set_add (p_visitedUrls p) u\<rparr>)"
    have "depth_ok (fst st0)" using assms Pair by (simp add: st0_def)
    then have nv: "depth_ok (fst (fst (processUrl e u d st0)))" by (rule dk_processUrl)
    obtain w1 p1 thr where r: "processUrl e u d st0 = ((w1, p1), thr)"
      by (cases "processUrl e u d st0") auto
    with nv have "depth_ok w1" by simp
    then show ?thesis using Pair Cons a r assms
      by (cases thr) (auto simp: loopBody_def Let_def st0_def intro: dk_recordError)
  qed
qed

lemma dk_leave: "depth_ok (fst st) \<Longrightarrow> depth_ok (fst (leave pending st))"
  by (cases st; cases pending) (simp_all add: leave_def dk_updateCrawlStatus)

lemma dk_cleaning: "depth_ok (fst res) \<Longrightarrow> depth_ok (fst (cleaning pending res p))"
  by (cases res) (auto simp: cleaning_def dk_leave split: option.splits)

lemma dk_tick: "depth_ok (fst st) \<Longrightarrow> depth_ok (fst (tick e st))"
  by (cases st)
     (auto simp: tick_def afterLoop_def pageSettled_def Let_def
       intro!: dk_loopBody [where st = "(a, b)" for a b, simplified] dk_cleaning dk_cleanupCrawl
         dk_cleanupCrawl_resume dk_updateCrawlStatus dk_obj_update
       split: phase.splits option.splits)

lemma dk_processCrawl: "depth_ok w \<Longrightarrow> depth_ok (fst (processCrawl w cid u d opts))"
  by (auto simp: processCrawl_def intro: dk_updateCrawlStatus split: option.splits)

lemma processCrawl_proc:
  "processCrawl w cid u d opts = (w1, Some p) \<Longrightarrow>
   p_maxDepth p = d \<and> p_urlQueue p = [(u, 0)] \<and> p_visitedUrls p = [] \<and> p_page p = fresh w
     \<and> fresh w1 = fresh w + 1 \<and> p_phase p = AwaitingPage"
  by (auto simp: processCrawl_def split: option.splits)

lemma dk_startCrawl:
  assumes "depth_ok w"
  shows "depth_ok (fst (startCrawl w cid u d opts launch))"
    and "fst (snd (startCrawl w cid u d opts launch)) = Some p \<Longrightarrow> queue_ok p \<and> visited_ok p"
proof -
  define w1 where "w1 = w\<lparr>db := (db w)(cid \<mapsto>
                       \<lparr>j_url = u, j_depth = d, j_status = Running, j_options = opts,
                        j_screenshotDir = ''data/screenshots/'' @ cid, j_pagesProcessed = 0,
                        j_screenshotCount = 0, j_errorCount = 0, j_visitedUrls = [],
                        j_errors = [], j_ocrResults = [], j_duration = 0,
                        j_errorMessage = None, j_startedAt = now w, j_completedAt = None,
                        j_pausedAt = None, j_resumedAt = None, j_stoppedAt = None,
                        j_failedAt = None\<rparr>)\<rparr>"
  define w2 where "w2 = w1\<lparr>fresh := fresh w1 + 1,
                                heap := (heap w1)(fresh w1 :=
                                  \<lparr>cd_status = Running, cd_url = u, cd_depth = d,
                                   cd_options = opts, cd_screenshotDir = ''data/screenshots/'' @ cid,
                                   cd_pages = [], cd_errors = [], cd_capturedScreenshots = [],
                                   cd_startTime = now w, cd_visitedUrls = None\<rparr>),
                                activeCrawls := (activeCrawls w1)(cid \<mapsto> fresh w1)\<rparr>"
  have s: "startCrawl w cid u d opts launch =
     (if db w cid \<noteq> None then (w, None, Inl ''duplicate key'')
      else if d < 1 \<or> u = [] then (w, None, Inl ''CrawlJob validation failed'')
      else case launch of Some msg \<Rightarrow> (w1, None, Inl msg)
           | None \<Rightarrow> (case processCrawl w2 cid u d opts of
                         (w3, po) \<Rightarrow> (w3, po, Inr (cid, Running))))"
    by (simp add: startCrawl_def Let_def w1_def w2_def split: option.splits)
  have k1: "depth_ok w1" using assms by (simp add: w1_def)
  have k2: "depth_ok w2" if "1 \<le> d" using k1 that by (auto simp: w2_def depth_ok_def)
  show "depth_ok (fst (startCrawl w cid u d opts launch))"
    using assms k1 k2 dk_processCrawl [of w2 cid u d opts]
    by (auto simp: s split: option.splits prod.splits)
  show "queue_ok p \<and> visited_ok p" if "fst (snd (startCrawl w cid u d opts launch)) = Some p"
    using that processCrawl_proc [of w2 cid u d opts _ p]
    by (auto simp: s queue_ok_def visited_ok_def split: option.splits prod.splits if_splits)
qed

lemma dk_pauseCrawl: "depth_ok w \<Longrightarrow> depth_ok (fst (pauseCrawl w cid))"
  by (auto simp: pauseCrawl_def intro!: dk_obj_update split: option.splits)

lemma dk_stopCrawl: "depth_ok w \<Longrightarrow> depth_ok (fst (stopCrawl w cid))"
  by (auto simp: stopCrawl_def intro!: dk_obj_update split: option.splits)

lemma dk_stopCrawl_resume: "depth_ok w \<Longrightarrow> depth_ok (fst (stopCrawl_resume w cid pos))"
  by (cases pos) (simp_all add: stopCrawl_resume_def dk_cleanupCrawl dk_cleanupCrawl_resume)

lemma dk_resumeCrawl:
  assumes "depth_ok w"
  shows "depth_ok (fst (resumeCrawl w cid))"
    and "fst (snd (resumeCrawl w cid)) = Some p \<Longrightarrow> queue_ok p \<and> visited_ok p"
proof -
  show "depth_ok (fst (resumeCrawl w cid))"
  proof (cases "activeCrawl w cid")
    case None
    with assms show ?thesis by (simp add: resumeCrawl_def)
  next
    case (Some a)
    obtain r cd where a: "a = (r, cd)" by (cases a)
    show ?thesis
    proof (cases "cd_status cd = Paused")
      case False
      with Some a assms show ?thesis by (simp add: resumeCrawl_def)
    next
      case True
      define w1 where "w1 = updateOne (obj_update w r (\<lambda>cd. cd\<lparr>cd_status := Running\<rparr>)) cid
                           (\<lambda>j. j\<lparr>j_status := Running, j_resumedAt := Some (now w)\<rparr>)"
      have "depth_ok w1" using assms by (simp add: w1_def dk_obj_update)
      then have "depth_ok (fst (processCrawl w1 cid (cd_url cd) (cd_depth cd) (cd_options cd)))"
        by (rule dk_processCrawl)
      with Some a True show ?thesis
        by (simp add: resumeCrawl_def Let_def w1_def case_prod_beta)
    qed
  qed
  show "queue_ok p \<and> visited_ok p" if p: "fst (snd (resumeCrawl w cid)) = Some p"
  proof (cases "activeCrawl w cid")
    case None
    with p show ?thesis by (simp add: resumeCrawl_def)
  next
    case (Some a)
    obtain r cd where a: "a = (r, cd)" by (cases a)
    from Some a assms have d: "1 \<le> cd_depth cd"
      by (auto simp: activeCrawl_def depth_ok_def split: option.splits)
    show ?thesis
    proof (cases "cd_status cd = Paused")
      case False
      with Some a p show ?thesis by (simp add: resumeCrawl_def)
    next
      case True
      define w1 where "w1 = updateOne (obj_update w r (\<lambda>cd. cd\<lparr>cd_status := Running\<rparr>)) cid
                           (\<lambda>j. j\<lparr>j_status := Running, j_resumedAt := Some (now w)\<rparr>)"
      obtain w2 po where pc: "processCrawl w1 cid (cd_url cd) (cd_depth cd) (cd_options cd) = (w2, po)"
        by (cases "processCrawl w1 cid (cd_url cd) (cd_depth cd) (cd_options cd)")
      with Some a True p have "po = Some p"
        by (simp add: resumeCrawl_def Let_def w1_def)
      with processCrawl_proc [of w1 cid "cd_url cd" "cd_depth cd" "cd_options cd" w2 p] pc d
      show ?thesis by (simp add: queue_ok_def visited_ok_def)
    qed
  qed
qed

lemma unshiftPriority_set:
  "set (unshiftPriority vs d q us) \<subseteq> set q \<union> {(x, d + 1) | x. x \<in> set us \<and> x \<notin> set vs}"
proof (induction us arbitrary: q)
  case Nil
  show ?case by (simp add: unshiftPriority_def)
next
  case (Cons a us)
  have "unshiftPriority vs d q (a # us)
      = unshiftPriority vs d (if a \<in> set vs then q else (a, d + 1) # q) us"
    by (simp add: unshiftPriority_def)
  with Cons [of "if a \<in> set vs then q else (a, d + 1) # q"] show ?case by auto
qed

lemma stage_proc:
  "snd (fst (navigateStage e u st)) = snd st"
  "snd (fst (scrollStage e st)) = snd st"
  "snd (fst (captureStage e u st)) = snd st"
  "snd (fst (recordStage u st)) = snd st"
  by (cases st; simp add: navigateStage_def scrollStage_def captureStage_def recordStage_def
        Let_def split: option.splits)+

lemma linkStage_proc:
  assumes "queue_ok (snd st)"
  shows "queue_ok (snd (fst (linkStage e d st)))" and "same_proc (snd st) (snd (fst (linkStage e d st)))"
  using assms
  by (cases st; auto simp: linkStage_def Let_def queue_ok_def same_proc_def split: sum.splits)+

lemma adviceStage_proc:
  assumes "queue_ok (snd st)" "d \<le> p_maxDepth (snd st)"
  shows "queue_ok (snd (fst (adviceStage e u d st)))"
    and "same_proc (snd st) (snd (fst (adviceStage e u d st)))"
proof -
  obtain w p where st: "st = (w, p)" by (cases st)
  show "same_proc (snd st) (snd (fst (adviceStage e u d st)))"
    by (auto simp: st adviceStage_def Let_def same_proc_def split: sum.splits option.splits)
  show "queue_ok (snd (fst (adviceStage e u d st)))"
    using assms unshiftPriority_set [of "p_visitedUrls p" d "p_urlQueue p"]
    by (auto simp: st adviceStage_def Let_def queue_ok_def split: sum.splits option.splits)
       (fastforce)+
qed

lemma processUrl_proc:
  assumes "queue_ok (snd st)" "d \<le> p_maxDepth (snd st)"
  shows "queue_ok (snd (fst (processUrl e u d st))) \<and> same_proc (snd st) (snd (fst (processUrl e u d st)))"
proof -
  let ?P = "\<lambda>s::crawl_state. queue_ok (snd s) \<and> same_proc (snd st) (snd s)"
  have d: "d \<le> p_maxDepth (snd s)" if "?P s" for s
    using that assms(2) by (simp add: same_proc_def)
  have "?P (fst (processUrl e u d st))"
    unfolding processUrl_def
  proof (intro andThen_preserves [where P = ?P])
    show "?P st" using assms by (simp add: same_proc_def)
  next
    fix s assume "?P s" then show "?P (fst (adviceStage e u d s))"
      using adviceStage_proc [of s d e u] d [of s] by (auto simp: same_proc_def)
  next
    fix s assume "?P s" then show "?P (fst (linkStage e d s))"
      using linkStage_proc [of s e d] by (auto simp: same_proc_def)
  qed (simp_all add: stage_proc)
  then show ?thesis by simp
qed

lemma distinct_set_add: "distinct xs \<Longrightarrow> distinct (set_add xs x)"
  by (simp add: set_add_def)

lemma loopBody_proc:
  assumes "queue_ok p" "visited_ok p"
  shows "queue_ok (snd (loopBody e (w, p))) \<and> visited_ok (snd (loopBody e (w, p)))"
proof (cases "p_urlQueue p")
  case Nil
  with assms show ?thesis by (simp add: loopBody_def)
next
  case (Cons a rest)
  obtain u d where a: "a = (u, d)" by (cases a)
  have q1: "queue_ok (p\<lparr>p_urlQueue := rest\<rparr>)"
    using assms(1) Cons by (auto simp: queue_ok_def)
  show ?thesis
  proof (cases "u \<in> set (p_visitedUrls p) \<or> d > p_maxDepth p")
    case True
    with Cons a q1 assms(2) show ?thesis
      by (auto simp: loopBody_def Let_def visited_ok_def)
  next
    case False
    define p0 where "p0 = p\<lparr>p_urlQueue := rest, p_visitedUrls := set_add (p_visitedUrls p) u\<rparr>"
    have "queue_ok (snd (w, p0))" "d \<le> p_maxDepth (snd (w, p0))"
      using q1 False by (simp_all add: p0_def queue_ok_def)
    from processUrl_proc [OF this, of e u]
    have r: "queue_ok (snd (fst (processUrl e u d (w, p0))))"
      "same_proc p0 (snd (fst (processUrl e u d (w, p0))))" by simp_all
    have v0: "visited_ok p0" using assms(2) by (simp add: p0_def visited_ok_def distinct_set_add)
    obtain w1 p1 thr where pu: "processUrl e u d (w, p0) = ((w1, p1), thr)"
      by (cases "processUrl e u d (w, p0)") auto
    with r v0 have "queue_ok p1" "visited_ok p1" by (simp_all add: same_proc_def visited_ok_def)
    moreover have "snd (loopBody e (w, p)) = p1"
      using Cons a False pu by (cases thr) (simp_all add: loopBody_def Let_def p0_def)
    ultimately show ?thesis by simp
  qed
qed

lemma cleaning_proc:
  "p_visitedUrls (snd (cleaning pending res p)) = p_visitedUrls p
   \<and> p_urlQueue (snd (cleaning pending res p)) = p_urlQueue p
   \<and> p_maxDepth (snd (cleaning pending res p)) = p_maxDepth p
   \<and> p_page (snd (cleaning pending res p)) = p_page p"
  by (cases res) (auto simp: cleaning_def leave_def split: option.splits)

lemma tick_proc:
  assumes "queue_ok p" "visited_ok p"
  shows "queue_ok (snd (tick e (w, p))) \<and> visited_ok (snd (tick e (w, p)))"
  using assms loopBody_proc [OF assms, of e w]
  by (auto simp: tick_def afterLoop_def pageSettled_def Let_def queue_ok_def visited_ok_def
      cleaning_proc split: phase.splits option.splits)

lemma service_ok_step: "service_ok sv \<Longrightarrow> service_ok (step sv ev)"
proof (cases sv)
  case (Pair w ps)
  assume a: "service_ok sv"
  with Pair have dk: "depth_ok w" and ps: "\<forall>p \<in> set ps. queue_ok p \<and> visited_ok p"
    by (simp_all add: service_ok_def)
  show ?thesis
  proof (cases ev)
    case (StartCrawl cid u d opts launch)
    obtain w1 po res where s: "startCrawl w cid u d opts launch = (w1, po, res)"
      by (cases "startCrawl w cid u d opts launch") auto
    with dk_startCrawl [OF dk, of cid u d opts launch] have "depth_ok w1"
      "\<And>p. po = Some p \<Longrightarrow> queue_ok p \<and> visited_ok p" by simp_all
    with Pair StartCrawl s ps show ?thesis
      by (cases po) (auto simp: service_ok_def spawn_def)
  next
    case (PauseCrawl cid)
    with Pair dk ps show ?thesis by (simp add: service_ok_def dk_pauseCrawl)
  next
    case (ResumeCrawl cid)
    obtain w1 po res where s: "resumeCrawl w cid = (w1, po, res)"
      by (cases "resumeCrawl w cid") auto
    with dk_resumeCrawl [OF dk, of cid] have "depth_ok w1"
      "\<And>p. po = Some p \<Longrightarrow> queue_ok p \<and> visited_ok p" by simp_all
    with Pair ResumeCrawl s ps show ?thesis
      by (cases po) (auto simp: service_ok_def spawn_def)
  next
    case (StopCrawl cid)
    with Pair dk ps dk_stopCrawl [of w cid] show ?thesis
      by (auto simp: service_ok_def split: prod.splits)
  next
    case (StopTurn k)
    with Pair dk ps
      dk_stopCrawl_resume [of w "s_crawlId (stopCalls w ! k)" "s_at (stopCalls w ! k)"]
    show ?thesis by (auto simp: service_ok_def split: prod.splits)
  next
    case (Tick k e)
    show ?thesis
    proof (cases "k < length ps")
      case False
      with Pair Tick a show ?thesis by simp
    next
      case True
      obtain w1 p1 where t: "tick e (w, ps ! k) = (w1, p1)" by (cases "tick e (w, ps ! k)")
      from True ps have "queue_ok (ps ! k)" "visited_ok (ps ! k)" by simp_all
      from tick_proc [OF this, of e w] t have p1: "queue_ok p1 \<and> visited_ok p1" by simp
      from dk_tick [of "(w, ps ! k)" e] dk t have "depth_ok w1" by simp
      moreover have "\<forall>p \<in> set (ps[k := p1]). queue_ok p \<and> visited_ok p"
        using ps p1 by (auto dest!: set_update_subset_insert [THEN subsetD])
      ultimately show ?thesis using Pair Tick True t by (simp add: service_ok_def)
    qed
  next
    case (Clock t)
    with Pair dk ps show ?thesis by (simp add: service_ok_def)
  qed
qed

lemma service_ok_run: "service_ok (run evs)"
proof (induction evs rule: rev_induct)
  case Nil
  show ?case by (simp add: run_def initial_def service_ok_def depth_ok_def)
next
  case (snoc ev evs)
  then show ?case by (simp add: run_def service_ok_step)
qed

text \<open>
  Claim C3, as the code has it. The discovered-link path appends only pairs whose
  depth is at most the maximum depth. The advisory path puts its pairs at the head
  without looking at the depth, so a queue may hold pairs one level below the
  maximum depth, and in no reachable state of the service a deeper one. A pair that
  is taken from the queue with a depth beyond the maximum is dropped: nothing is
  visited and nothing else changes.
\<close>

theorem frontier_depth_bound:
  "(\<forall>p \<in> set (snd (run evs)). \<forall>(u, k) \<in> set (p_urlQueue p). k \<le> p_maxDepth p + 1)
   \<and> (\<exists>added. p_urlQueue (snd (fst (linkStage e d (w, p)))) = p_urlQueue p @ added
         \<and> (\<forall>(u, k) \<in> set added. k \<le> p_maxDepth p))
   \<and> (p_urlQueue p = (u, d) # rest \<and> d > p_maxDepth p \<longrightarrow>
        loopBody e (w, p) = (w, p\<lparr>p_urlQueue := rest\<rparr>))"
proof -
  have 1: "\<forall>p \<in> set (snd (run evs)). \<forall>(u, k) \<in> set (p_urlQueue p). k \<le> p_maxDepth p + 1"
    using service_ok_run [of evs] by (auto simp: service_ok_def queue_ok_def)
  have 2: "\<exists>added. p_urlQueue (snd (fst (linkStage e d (w, p)))) = p_urlQueue p @ added
         \<and> (\<forall>(u, k) \<in> set added. k \<le> p_maxDepth p)"
    by (auto simp: linkStage_def Let_def split: sum.splits)
  have 3: "p_urlQueue p = (u, d) # rest \<and> d > p_maxDepth p \<longrightarrow>
        loopBody e (w, p) = (w, p\<lparr>p_urlQueue := rest\<rparr>)"
    by (simp add: loopBody_def Let_def)
  from 1 2 3 show ?thesis by blast
qed


lemma advice_state:
  "length (snd (run advice_run)) = 1"
  "p_urlQueue (snd (run advice_run) ! 0) = [(''http://a/q'', 2)]"
  "p_maxDepth (snd (run advice_run) ! 0) = 1"
  "p_visitedUrls (snd (run advice_run) ! 0) = [''http://a/'', ''http://a/p'']"
  by (simp_all add: advice_run_def advised_page_def advice_options_def run_defs sample_defs)

theorem frontier_depth_bound_witness:
  "snd (run advice_run) ! 0 \<in> set (snd (run advice_run))
   \<and> (''http://a/q'', 2) \<in> set (p_urlQueue (snd (run advice_run) ! 0))
   \<and> 2 \<le> p_maxDepth (snd (run advice_run) ! 0) + 1
   \<and> p_urlQueue (snd (run advice_run) ! 0) = (''http://a/q'', 2) # []
   \<and> 2 > p_maxDepth (snd (run advice_run) ! 0)
   \<and> loopBody (page_with []) (fst (run advice_run), snd (run advice_run) ! 0)
        = (fst (run advice_run), (snd (run advice_run) ! 0)\<lparr>p_urlQueue := []\<rparr>)"
proof -
  have m: "snd (run advice_run) ! 0 \<in> set (snd (run advice_run))"
    by (rule nth_mem) (simp add: advice_state(1))
  have q: "(''http://a/q'', 2) \<in> set (p_urlQueue (snd (run advice_run) ! 0))"
    by (simp add: advice_state)
  note inst = frontier_depth_bound [of advice_run "page_with []" 2 "fst (run advice_run)"
      "snd (run advice_run) ! 0" "''http://a/q''" "[]"]
  from inst m q have b: "2 \<le> p_maxDepth (snd (run advice_run) ! 0) + 1" by blast
  have h: "p_urlQueue (snd (run advice_run) ! 0) = (''http://a/q'', 2) # []"
    "2 > p_maxDepth (snd (run advice_run) ! 0)"
    by (simp_all add: advice_state)
  from inst h
  have "loopBody (page_with []) (fst (run advice_run), snd (run advice_run) ! 0)
        = (fst (run advice_run), (snd (run advice_run) ! 0)\<lparr>p_urlQueue := []\<rparr>)"
    by blast
  with m q b h show ?thesis by blast
qed

text \<open>
  Claim C3 as stated fails: in a job of maximum depth 1 the advisory path puts the
  pair \<open>(q, 2)\<close> into the queue.
\<close>

theorem priority_insertion_exceeds_maxDepth:
  "p_maxDepth (snd (run advice_run) ! 0) = 1
   \<and> p_urlQueue (snd (run advice_run) ! 0) = [(''http://a/q'', 2)]"
  by (simp add: advice_state)

lemma gotos_append: "gotos pg (xs @ ys) = gotos pg xs @ gotos pg ys"
  by (induction xs) (auto split: ext_call.splits)

lemma gotos_map [simp]:
  "gotos pg (map ClosePage ps) = []" "gotos pg (map (Scrolling q) cs) = []"
  by (induction ps, simp_all) (induction cs, simp_all)

lemma nv_log:
  "gotos pg cs = [] \<Longrightarrow> gotos pg (ext_calls (log_calls w cs)) = gotos pg (ext_calls w)"
  by (simp add: log_calls_def gotos_append)

lemma view_log: "(\<And>pg. gotos pg cs = []) \<Longrightarrow> nav_view (log_calls w cs) = nav_view w"
  by (simp add: nav_view_def log_calls_def gotos_append)

lemma view_updateOne [simp]: "nav_view (updateOne w cid f) = nav_view w"
  by (simp add: nav_view_def updateOne_def split: option.splits)

lemma view_obj_update [simp]: "nav_view (obj_update w r f) = nav_view w"
  by (simp add: nav_view_def obj_update_def)

lemma view_updateCrawlStatus [simp]: "nav_view (updateCrawlStatus w cid s m) = nav_view w"
  by (simp add: updateCrawlStatus_def Let_def split: option.splits)

lemma view_active [simp]:
  "nav_view (w\<lparr>activeCrawls := a\<rparr>) = nav_view w"
  "nav_view (w\<lparr>stopCalls := s\<rparr>) = nav_view w"
  by (simp_all add: nav_view_def)

lemma view_closePages [simp]: "nav_view (fst (closePages w r i)) = nav_view w"
  by (simp add: closePages_def view_log)

lemma view_cleanupCrawl [simp]: "nav_view (fst (cleanupCrawl w cid)) = nav_view w"
  by (simp add: cleanupCrawl_def case_prod_beta split: option.splits)

lemma view_cleanupCrawl_resume [simp]:
  "nav_view (fst (cleanupCrawl_resume w cid r pc)) = nav_view w"
  by (cases pc) (simp_all add: cleanupCrawl_resume_def case_prod_beta view_log)

lemma view_cleaning: "nav_view (fst (cleaning pending res p)) = nav_view (fst res)"
  by (cases res) (auto simp: cleaning_def leave_def split: option.splits)

lemma view_ocr [simp]: "nav_view (fst (processScreenshotWithOCR e w cid path u)) = nav_view w"
  by (simp add: processScreenshotWithOCR_def Let_def view_log split: option.splits)

lemma view_scrollStage: "nav_view (fst (fst (scrollStage e st))) = nav_view (fst st)"
  by (cases st) (simp add: scrollStage_def Let_def view_log)

lemma view_captureStage: "nav_view (fst (fst (captureStage e u st))) = nav_view (fst st)"
  by (cases st) (simp add: captureStage_def Let_def view_log split: option.splits)

lemma view_linkStage: "nav_view (fst (fst (linkStage e d st))) = nav_view (fst st)"
  by (cases st) (simp add: linkStage_def Let_def view_log split: sum.splits)

lemma view_recordStage: "nav_view (fst (fst (recordStage u st))) = nav_view (fst st)"
  by (cases st) (simp add: recordStage_def)

lemma view_adviceStage: "nav_view (fst (fst (adviceStage e u d st))) = nav_view (fst st)"
  by (cases st) (simp add: adviceStage_def Let_def view_log split: sum.splits option.splits)

lemma view_after_navigate:
  "nav_view (fst (fst (andThen (scrollStage e)
      (andThen (captureStage e u)
        (andThen (linkStage e d)
          (andThen (recordStage u) (adviceStage e u d)))) st))) = nav_view (fst st)"
proof -
  let ?P = "\<lambda>s::crawl_state. nav_view (fst s) = nav_view (fst st)"
  have "?P (fst (andThen (scrollStage e)
      (andThen (captureStage e u)
        (andThen (linkStage e d)
          (andThen (recordStage u) (adviceStage e u d)))) st))"
    by (intro andThen_preserves [where P = ?P])
       (simp_all add: view_scrollStage view_captureStage view_linkStage view_recordStage
         view_adviceStage)
  then show ?thesis .
qed

lemma view_recordError [simp]: "nav_view (recordError w p u m) = nav_view w"
  by (simp add: recordError_def Let_def)

lemma processUrl_view:
  "nav_view (fst (fst (processUrl e u d (w, p))))
     = (fresh w, \<lambda>pg. gotos pg (ext_calls w) @ (if pg = p_page p then [u] else []))"
proof -
  obtain st1 thr where n: "navigateStage e u (w, p) = (st1, thr)"
    by (cases "navigateStage e u (w, p)")
  then have v1: "nav_view (fst st1)
      = (fresh w, \<lambda>pg. gotos pg (ext_calls w) @ (if pg = p_page p then [u] else []))"
    by (auto simp: navigateStage_def Let_def nav_view_def log_calls_def gotos_append
        split: option.splits)
  show ?thesis
  proof (cases thr)
    case None
    with n have n1: "navigateStage e u (w, p) = (st1, None)" by simp
    have "processUrl e u d (w, p) = andThen (scrollStage e)
      (andThen (captureStage e u)
        (andThen (linkStage e d)
          (andThen (recordStage u) (adviceStage e u d)))) st1"
      by (simp add: processUrl_def andThen_ok [where f = "navigateStage e u", OF n1])
    with v1 show ?thesis by (simp add: view_after_navigate)
  next
    case (Some m)
    with n have "processUrl e u d (w, p) = (st1, Some m)"
      by (simp add: processUrl_def andThen_def [of "navigateStage e u"])
    with v1 show ?thesis by simp
  qed
qed

lemma same_proc_refl [simp]: "same_proc p p"
  by (simp add: same_proc_def)

lemma processUrl_same: "same_proc (snd st) (snd (fst (processUrl e u d st)))"
proof -
  let ?P = "\<lambda>s::crawl_state. same_proc (snd st) (snd s)"
  have l: "?P (fst (linkStage e d s))" if "?P s" for s
    using that by (cases s) (auto simp: linkStage_def Let_def same_proc_def split: sum.splits)
  have a: "?P (fst (adviceStage e u d s))" if "?P s" for s
    using that
    by (cases s) (auto simp: adviceStage_def Let_def same_proc_def split: sum.splits option.splits)
  have "?P (fst (processUrl e u d st))"
    unfolding processUrl_def
    by (intro andThen_preserves [where P = ?P] l a) (simp_all add: stage_proc)
  then show ?thesis .
qed

lemma loopBody_view:
  "\<exists>added. nav_view (fst (loopBody e (w, p)))
       = (fresh w, \<lambda>pg. gotos pg (ext_calls w) @ (if pg = p_page p then added else []))
     \<and> p_visitedUrls (snd (loopBody e (w, p))) = p_visitedUrls p @ added
     \<and> p_page (snd (loopBody e (w, p))) = p_page p"
proof (cases "p_urlQueue p")
  case Nil
  then show ?thesis by (auto simp: loopBody_def nav_view_def intro!: exI [of _ "[]"])
next
  case (Cons a rest)
  obtain u d where a: "a = (u, d)" by (cases a)
  show ?thesis
  proof (cases "u \<in> set (p_visitedUrls p) \<or> d > p_maxDepth p")
    case True
    with Cons a show ?thesis
      by (auto simp: loopBody_def Let_def nav_view_def intro!: exI [of _ "[]"])
  next
    case False
    define p0 where "p0 = p\<lparr>p_urlQueue := rest, p_visitedUrls := set_add (p_visitedUrls p) u\<rparr>"
    have v0: "p_visitedUrls p0 = p_visitedUrls p @ [u]" "p_page p0 = p_page p"
      using False by (simp_all add: p0_def set_add_def)
    obtain w1 p1 thr where pu: "processUrl e u d (w, p0) = ((w1, p1), thr)"
      by (cases "processUrl e u d (w, p0)") auto
    from processUrl_view [of e u d w p0] pu v0
    have n: "nav_view w1 = (fresh w, \<lambda>pg. gotos pg (ext_calls w) @ (if pg = p_page p then [u] else []))"
      by simp
    from processUrl_same [of "(w, p0)" e u d] pu v0
    have s: "p_visitedUrls p1 = p_visitedUrls p @ [u]" "p_page p1 = p_page p"
      by (simp_all add: same_proc_def)
    have "loopBody e (w, p) = (case thr of None \<Rightarrow> (w1, p1) | Some m \<Rightarrow> (recordError w1 p1 u m, p1))"
      using Cons a False pu by (simp add: loopBody_def Let_def p0_def split: option.splits)
    with n s show ?thesis by (cases thr) (auto intro!: exI [of _ "[u]"])
  qed
qed

lemma tick_view:
  "\<exists>added. nav_view (fst (tick e (w, p)))
       = (fresh w, \<lambda>pg. gotos pg (ext_calls w) @ (if pg = p_page p then added else []))
     \<and> p_visitedUrls (snd (tick e (w, p))) = p_visitedUrls p @ added
     \<and> p_page (snd (tick e (w, p))) = p_page p"
proof (cases "p_phase p = InLoop \<and> loopCondition (w, p)")
  case True
  then have "tick e (w, p) = loopBody e (w, p)" by (simp add: tick_def)
  with loopBody_view [of e w p] show ?thesis by simp
next
  case False
  then have "nav_view (fst (tick e (w, p))) = nav_view w
     \<and> p_visitedUrls (snd (tick e (w, p))) = p_visitedUrls p
     \<and> p_page (snd (tick e (w, p))) = p_page p"
    by (auto simp: tick_def afterLoop_def pageSettled_def Let_def cleaning_proc view_cleaning
        split: phase.splits option.splits)
  then show ?thesis by (auto simp: nav_view_def intro!: exI [of _ "[]"])
qed

lemma view_pauseCrawl: "nav_view (fst (pauseCrawl w cid)) = nav_view w"
  by (simp add: pauseCrawl_def split: option.splits prod.splits)

lemma view_stopCrawl: "nav_view (fst (stopCrawl w cid)) = nav_view w"
  by (simp add: stopCrawl_def split: option.splits prod.splits)

lemma view_stopCrawl_resume: "nav_view (fst (stopCrawl_resume w cid pos)) = nav_view w"
  by (cases pos) (simp_all add: stopCrawl_resume_def)

lemma processCrawl_view:
  "processCrawl w cid u d opts = (w1, po) \<Longrightarrow>
     (\<forall>pg. gotos pg (ext_calls w1) = gotos pg (ext_calls w)) \<and> fresh w \<le> fresh w1
     \<and> (\<forall>p. po = Some p \<longrightarrow> p_page p = fresh w \<and> fresh w1 = fresh w + 1 \<and> p_visitedUrls p = [])"
  using view_updateCrawlStatus [of w cid Failed]
  by (auto simp: processCrawl_def nav_view_def fun_eq_iff split: option.splits)

lemma resumeCrawl_view:
  "resumeCrawl w cid = (w1, po, res) \<Longrightarrow>
     (\<forall>pg. gotos pg (ext_calls w1) = gotos pg (ext_calls w)) \<and> fresh w \<le> fresh w1
     \<and> (\<forall>p. po = Some p \<longrightarrow> fresh w \<le> p_page p \<and> p_page p < fresh w1 \<and> p_visitedUrls p = [])"
proof -
  assume r: "resumeCrawl w cid = (w1, po, res)"
  show ?thesis
  proof (cases "activeCrawl w cid")
    case None
    with r show ?thesis by (auto simp: resumeCrawl_def)
  next
    case (Some a)
    obtain rf cd where a: "a = (rf, cd)" by (cases a)
    show ?thesis
    proof (cases "cd_status cd = Paused")
      case False
      with Some a r show ?thesis by (auto simp: resumeCrawl_def)
    next
      case True
      define w0 where "w0 = updateOne (obj_update w rf (\<lambda>cd. cd\<lparr>cd_status := Running\<rparr>)) cid
                           (\<lambda>j. j\<lparr>j_status := Running, j_resumedAt := Some (now w)\<rparr>)"
      have v: "nav_view w0 = nav_view w" by (simp add: w0_def)
      from Some a True r have "processCrawl w0 cid (cd_url cd) (cd_depth cd) (cd_options cd) = (w1, po)"
        by (auto simp: resumeCrawl_def Let_def w0_def split: prod.splits)
      from processCrawl_view [OF this] v show ?thesis by (auto simp: nav_view_def fun_eq_iff)
    qed
  qed
qed

lemma startCrawl_view:
  "startCrawl w cid u d opts launch = (w1, po, res) \<Longrightarrow>
     (\<forall>pg. gotos pg (ext_calls w1) = gotos pg (ext_calls w)) \<and> fresh w \<le> fresh w1
     \<and> (\<forall>p. po = Some p \<longrightarrow> fresh w \<le> p_page p \<and> p_page p < fresh w1 \<and> p_visitedUrls p = [])"
proof -
  assume r: "startCrawl w cid u d opts launch = (w1, po, res)"
  define w0 where "w0 = w\<lparr>db := (db w)(cid \<mapsto>
                       \<lparr>j_url = u, j_depth = d, j_status = Running, j_options = opts,
                        j_screenshotDir = ''data/screenshots/'' @ cid, j_pagesProcessed = 0,
                        j_screenshotCount = 0, j_errorCount = 0, j_visitedUrls = [],
                        j_errors = [], j_ocrResults = [], j_duration = 0,
                        j_errorMessage = None, j_startedAt = now w, j_completedAt = None,
                        j_pausedAt = None, j_resumedAt = None, j_stoppedAt = None,
                        j_failedAt = None\<rparr>)\<rparr>"
  define w2 where "w2 = w0\<lparr>fresh := fresh w0 + 1,
                                heap := (heap w0)(fresh w0 :=
                                  \<lparr>cd_status = Running, cd_url = u, cd_depth = d,
                                   cd_options = opts, cd_screenshotDir = ''data/screenshots/'' @ cid,
                                   cd_pages = [], cd_errors = [], cd_capturedScreenshots = [],
                                   cd_startTime = now w, cd_visitedUrls = None\<rparr>),
                                activeCrawls := (activeCrawls w0)(cid \<mapsto> fresh w0)\<rparr>"
  have s: "startCrawl w cid u d opts launch =
     (if db w cid \<noteq> None then (w, None, Inl ''duplicate key'')
      else if d < 1 \<or> u = [] then (w, None, Inl ''CrawlJob validation failed'')
      else case launch of Some msg \<Rightarrow> (w0, None, Inl msg)
           | None \<Rightarrow> (case processCrawl w2 cid u d opts of
                         (w3, po) \<Rightarrow> (w3, po, Inr (cid, Running))))"
    by (simp add: startCrawl_def Let_def w0_def w2_def split: option.splits)
  have e: "ext_calls w0 = ext_calls w" "fresh w0 = fresh w" "ext_calls w2 = ext_calls w"
    "fresh w2 = fresh w + 1"
    by (simp_all add: w0_def w2_def)
  show ?thesis
  proof (cases "db w cid = None \<and> \<not> (d < 1 \<or> u = []) \<and> launch = None")
    case False
    with r e show ?thesis by (auto simp: s split: if_splits option.splits)
  next
    case True
    have "processCrawl w2 cid u d opts = (w1, po)"
      using r unfolding s using True by (auto split: prod.splits)
    from processCrawl_view [OF this] e show ?thesis by auto
  qed
qed

lemma nav_ok_spawn:
  assumes ok: "nav_ok (w, ps)"
    and g: "\<forall>pg. gotos pg (ext_calls w1) = gotos pg (ext_calls w)" and f: "fresh w \<le> fresh w1"
    and p: "\<forall>p. po = Some p \<longrightarrow> fresh w \<le> p_page p \<and> p_page p < fresh w1 \<and> p_visitedUrls p = []"
  shows "nav_ok (w1, spawn ps po)"
proof (cases po)
  case None
  with ok g f show ?thesis by (auto simp: nav_ok_def spawn_def)
next
  case (Some q)
  with p have q: "fresh w \<le> p_page q" "p_page q < fresh w1" "p_visitedUrls q = []" by simp_all
  from ok have old: "\<forall>p \<in> set ps. p_page p < fresh w" by (simp add: nav_ok_def)
  with q(1) have "p_page q \<notin> p_page ` set ps" by auto
  moreover from ok q(1) have "gotos (p_page q) (ext_calls w) = []" by (simp add: nav_ok_def)
  ultimately show ?thesis
    using ok g f q Some by (auto simp: nav_ok_def spawn_def)
qed

lemma nav_ok_same:
  "nav_ok (w, ps) \<Longrightarrow> nav_view w1 = nav_view w \<Longrightarrow> nav_ok (w1, ps)"
  by (auto simp: nav_ok_def nav_view_def fun_eq_iff)

lemma nav_ok_step: "nav_ok sv \<Longrightarrow> nav_ok (step sv ev)"
proof (cases sv)
  case (Pair w ps)
  assume "nav_ok sv"
  with Pair have ok: "nav_ok (w, ps)" by simp
  show ?thesis
  proof (cases ev)
    case (StartCrawl cid u d opts launch)
    obtain w1 po res where s: "startCrawl w cid u d opts launch = (w1, po, res)"
      by (cases "startCrawl w cid u d opts launch") auto
    from startCrawl_view [OF s] nav_ok_spawn [OF ok, of w1 po] have "nav_ok (w1, spawn ps po)"
      by blast
    with Pair StartCrawl s show ?thesis by simp
  next
    case (PauseCrawl cid)
    with Pair nav_ok_same [OF ok view_pauseCrawl [of w cid]] show ?thesis by simp
  next
    case (ResumeCrawl cid)
    obtain w1 po res where s: "resumeCrawl w cid = (w1, po, res)"
      by (cases "resumeCrawl w cid") auto
    from resumeCrawl_view [OF s] nav_ok_spawn [OF ok, of w1 po] have "nav_ok (w1, spawn ps po)"
      by blast
    with Pair ResumeCrawl s show ?thesis by simp
  next
    case (StopCrawl cid)
    obtain w1 pos where s: "stopCrawl w cid = (w1, pos)" by (cases "stopCrawl w cid")
    with view_stopCrawl [of w cid]
    have "nav_view (w1\<lparr>stopCalls := stopCalls w1 @ [\<lparr>s_crawlId = cid, s_at = pos\<rparr>]\<rparr>)
        = nav_view w" by simp
    from nav_ok_same [OF ok this] Pair StopCrawl s show ?thesis by simp
  next
    case (StopTurn k)
    show ?thesis
    proof (cases "k < length (stopCalls w)")
      case False
      with Pair StopTurn ok show ?thesis by simp
    next
      case True
      obtain w1 pos where
        s: "stopCrawl_resume w (s_crawlId (stopCalls w ! k)) (s_at (stopCalls w ! k)) = (w1, pos)"
        by (cases "stopCrawl_resume w (s_crawlId (stopCalls w ! k)) (s_at (stopCalls w ! k))")
      with view_stopCrawl_resume [of w "s_crawlId (stopCalls w ! k)" "s_at (stopCalls w ! k)"]
      have "nav_view (w1\<lparr>stopCalls := (stopCalls w1)[k := (stopCalls w1 ! k)\<lparr>s_at := pos\<rparr>]\<rparr>)
          = nav_view w" by simp
      from nav_ok_same [OF ok this] Pair StopTurn True s show ?thesis by simp
    qed
  next
    case (Clock t)
    with Pair ok show ?thesis by (simp add: nav_ok_def)
  next
    case (Tick k e)
    show ?thesis
    proof (cases "k < length ps")
      case False
      with Pair Tick ok show ?thesis by simp
    next
      case True
      obtain w1 p1 where t: "tick e (w, ps ! k) = (w1, p1)" by (cases "tick e (w, ps ! k)")
      from tick_view [of e w "ps ! k"] t obtain added where
        v: "nav_view w1 = (fresh w, \<lambda>pg. gotos pg (ext_calls w)
              @ (if pg = p_page (ps ! k) then added else []))"
        and vis: "p_visitedUrls p1 = p_visitedUrls (ps ! k) @ added"
        and pg: "p_page p1 = p_page (ps ! k)" by auto
      from v have fr: "fresh w1 = fresh w"
        and gt: "\<And>q. gotos q (ext_calls w1)
              = gotos q (ext_calls w) @ (if q = p_page (ps ! k) then added else [])"
        by (auto simp: nav_view_def fun_eq_iff)
      from ok have d: "distinct (map p_page ps)"
        and c: "\<forall>q. fresh w \<le> q \<longrightarrow> gotos q (ext_calls w) = []"
        and e: "\<forall>p \<in> set ps. p_page p < fresh w \<and> gotos (p_page p) (ext_calls w) = p_visitedUrls p"
        by (simp_all add: nav_ok_def)
      have m: "map p_page (ps[k := p1]) = map p_page ps"
        using pg True by (simp add: map_update list_update_same_conv)
      have k: "p_page (ps ! k) < fresh w" using e True by simp
      have c1: "\<forall>q. fresh w1 \<le> q \<longrightarrow> gotos q (ext_calls w1) = []"
        using c k by (auto simp: fr gt)
      have e1: "p_page p < fresh w1 \<and> gotos (p_page p) (ext_calls w1) = p_visitedUrls p"
        if "p \<in> set (ps[k := p1])" for p
      proof -
        from that obtain j where j: "j < length ps" "p = (ps[k := p1]) ! j"
          by (auto simp: in_set_conv_nth)
        show ?thesis
        proof (cases "j = k")
          case True
          with j have "p = p1" by simp
          with e \<open>k < length ps\<close> vis pg show ?thesis by (simp add: fr gt)
        next
          case False
          with j have pj: "p = ps ! j" by simp
          from d j(1) \<open>k < length ps\<close> False have "p_page (ps ! j) \<noteq> p_page (ps ! k)"
            by (auto simp: distinct_conv_nth)
          with pj e j(1) show ?thesis by (simp add: fr gt)
        qed
      qed
      have "nav_ok (w1, ps[k := p1])"
        using d m c1 e1 by (auto simp: nav_ok_def)
      with Pair Tick True t show ?thesis by simp
    qed
  qed
qed

lemma nav_ok_run: "nav_ok (run evs)"
proof (induction evs rule: rev_induct)
  case Nil
  show ?case by (simp add: run_def initial_def nav_ok_def)
next
  case (snoc ev evs)
  then show ?case by (simp add: run_def nav_ok_step)
qed

text \<open>
  Claim C5, as the code has it. Every link extracted from a page (a link that
  occurs several times on the page once) is appended to the queue, whether or not
  its URL is in \<^verbatim>\<open>visitedUrls\<close> or in the queue already. Duplicates are removed when a
  pair is taken from the queue: a pair whose URL is in \<^verbatim>\<open>visitedUrls\<close> is dropped
  without being visited, and in every reachable state of the service the
  \<^verbatim>\<open>visitedUrls\<close> of every execution of \<^verbatim>\<open>processCrawl\<close> are free of duplicates and
  are exactly the URLs the execution has navigated to, each once. The advisory path
  puts no URL that is in \<^verbatim>\<open>visitedUrls\<close> into the queue.
\<close>

theorem discovered_links_appended_unfiltered:
  "(d < p_maxDepth p \<and> e_links e = Inr ls \<longrightarrow>
      p_urlQueue (snd (fst (linkStage e d (w, p))))
        = p_urlQueue p @ map (\<lambda>l. (l, d + 1)) (new_Set ls))
   \<and> (\<forall>p \<in> set (snd (run evs)). distinct (p_visitedUrls p)
         \<and> gotos (p_page p) (ext_calls (fst (run evs))) = p_visitedUrls p)
   \<and> (p_urlQueue p = (u, d) # rest \<and> u \<in> set (p_visitedUrls p) \<longrightarrow>
        loopBody e (w, p) = (w, p\<lparr>p_urlQueue := rest\<rparr>))
   \<and> set (unshiftPriority (p_visitedUrls p) d q us)
        \<subseteq> set q \<union> {(x, d + 1) | x. x \<in> set us \<and> x \<notin> set (p_visitedUrls p)}"
proof -
  have 1: "d < p_maxDepth p \<and> e_links e = Inr ls \<longrightarrow>
      p_urlQueue (snd (fst (linkStage e d (w, p))))
        = p_urlQueue p @ map (\<lambda>l. (l, d + 1)) (new_Set ls)"
    by (simp add: linkStage_def Let_def extractLinks_def)
  have 2: "\<forall>p \<in> set (snd (run evs)). distinct (p_visitedUrls p)
         \<and> gotos (p_page p) (ext_calls (fst (run evs))) = p_visitedUrls p"
    using service_ok_run [of evs] nav_ok_run [of evs]
    by (auto simp: service_ok_def visited_ok_def nav_ok_def)
  have 3: "p_urlQueue p = (u, d) # rest \<and> u \<in> set (p_visitedUrls p) \<longrightarrow>
        loopBody e (w, p) = (w, p\<lparr>p_urlQueue := rest\<rparr>)"
    by (simp add: loopBody_def Let_def)
  from 1 2 3 unshiftPriority_set show ?thesis by blast
qed

lemma self_link_state:
  "length (snd (run self_link_run)) = 1"
  "p_urlQueue (snd (run self_link_run) ! 0) = [(''http://a/'', 1), (''http://a/x'', 1)]"
  "p_maxDepth (snd (run self_link_run) ! 0) = 2"
  "p_visitedUrls (snd (run self_link_run) ! 0) = [''http://a/'']"
  by (simp_all add: self_link_run_def run_defs sample_defs)

theorem discovered_links_appended_unfiltered_witness:
  "1 < p_maxDepth (snd (run self_link_run) ! 0)
   \<and> e_links (page_with [''http://a/'']) = Inr [''http://a/'']
   \<and> p_urlQueue (snd (fst (linkStage (page_with [''http://a/'']) 1
          (fst (run self_link_run), snd (run self_link_run) ! 0))))
        = [(''http://a/'', 1), (''http://a/x'', 1), (''http://a/'', 2)]
   \<and> snd (run self_link_run) ! 0 \<in> set (snd (run self_link_run))
   \<and> distinct (p_visitedUrls (snd (run self_link_run) ! 0))
   \<and> gotos (p_page (snd (run self_link_run) ! 0)) (ext_calls (fst (run self_link_run)))
        = [''http://a/'']
   \<and> ''http://a/'' \<in> set (p_visitedUrls (snd (run self_link_run) ! 0))
   \<and> loopBody (page_with [''http://a/''])
          (fst (run self_link_run), snd (run self_link_run) ! 0)
        = (fst (run self_link_run),
           (snd (run self_link_run) ! 0)\<lparr>p_urlQueue := [(''http://a/x'', 1)]\<rparr>)"
proof -
  have m: "snd (run self_link_run) ! 0 \<in> set (snd (run self_link_run))"
    by (rule nth_mem) (simp add: self_link_state(1))
  have h: "1 < p_maxDepth (snd (run self_link_run) ! 0)"
    "e_links (page_with [''http://a/'']) = Inr [''http://a/'']"
    "p_urlQueue (snd (run self_link_run) ! 0) = (''http://a/'', 1) # [(''http://a/x'', 1)]"
    "''http://a/'' \<in> set (p_visitedUrls (snd (run self_link_run) ! 0))"
    by (simp_all add: self_link_state page_with_def)
  note inst = discovered_links_appended_unfiltered [of 1 "snd (run self_link_run) ! 0"
      "page_with [''http://a/'']" "[''http://a/'']" "fst (run self_link_run)" self_link_run
      "''http://a/''" "[(''http://a/x'', 1)]" "[]" "[]"]
  from inst h(1,2)
  have "p_urlQueue (snd (fst (linkStage (page_with [''http://a/'']) 1
          (fst (run self_link_run), snd (run self_link_run) ! 0))))
        = p_urlQueue (snd (run self_link_run) ! 0)
            @ map (\<lambda>l. (l, 1 + 1)) (new_Set [''http://a/''])"
    by blast
  then have a: "p_urlQueue (snd (fst (linkStage (page_with [''http://a/'']) 1
          (fst (run self_link_run), snd (run self_link_run) ! 0))))
        = [(''http://a/'', 1), (''http://a/x'', 1), (''http://a/'', 2)]"
    by (simp add: self_link_state new_Set_def set_add_def)
  from inst m have d: "distinct (p_visitedUrls (snd (run self_link_run) ! 0))" by blast
  from inst m
  have "gotos (p_page (snd (run self_link_run) ! 0)) (ext_calls (fst (run self_link_run)))
      = p_visitedUrls (snd (run self_link_run) ! 0)"
    by blast
  then have g: "gotos (p_page (snd (run self_link_run) ! 0))
      (ext_calls (fst (run self_link_run))) = [''http://a/'']"
    by (simp add: self_link_state)
  from inst h(3,4)
  have b: "loopBody (page_with [''http://a/''])
          (fst (run self_link_run), snd (run self_link_run) ! 0)
        = (fst (run self_link_run),
           (snd (run self_link_run) ! 0)\<lparr>p_urlQueue := [(''http://a/x'', 1)]\<rparr>)"
    by blast
  from h(1,2,4) a m d g b show ?thesis by blast
qed

text \<open>
  Claim C5 as stated fails: the start page links to itself, and the pair with its
  own URL, which is in \<^verbatim>\<open>visitedUrls\<close>, is appended to the queue.
\<close>

theorem visited_url_enqueued_again:
  "p_visitedUrls (snd (run self_link_run) ! 0) = [''http://a/'']
   \<and> p_urlQueue (snd (run self_link_run) ! 0) = [(''http://a/'', 1), (''http://a/x'', 1)]"
  by (simp add: self_link_state)

subsection \<open>Pause, resume and stop\<close>

lemmas lifecycle_defs = pause_run_def stop_run_def resume_run_def next_turn_def
  resumed_turns_def one_page_run_def

text \<open>
  Claim C1 does not hold of the code. The job is paused while two links wait in the
  queue; at its next turn the execution leaves the loop because the status is
  \<^verbatim>\<open>paused\<close> and sets the status to \<^verbatim>\<open>completed\<close>, in memory and in the store, the
  queue being what it was. After \<^verbatim>\<open>stopCrawl\<close> the store says \<^verbatim>\<open>stopped\<close>, and the
  next turn of the execution overwrites it with \<^verbatim>\<open>completed\<close>.
\<close>

theorem paused_or_stopped_job_completed:
  "cd_status (heap (fst (run pause_run)) 0) = Paused
   \<and> p_urlQueue (snd (run pause_run) ! 0) = [(''http://a/x'', 1), (''http://a/y'', 1)]
   \<and> cd_status (heap (fst (run (pause_run @ next_turn))) 0) = Completed
   \<and> map_option j_status (db (fst (run (pause_run @ next_turn))) ''job'') = Some Completed
   \<and> p_urlQueue (snd (run (pause_run @ next_turn)) ! 0)
        = [(''http://a/x'', 1), (''http://a/y'', 1)]
   \<and> map_option j_status (db (fst (run stop_run)) ''job'') = Some Stopped
   \<and> p_urlQueue (snd (run stop_run) ! 0) = [(''http://a/x'', 1), (''http://a/y'', 1)]
   \<and> map_option j_status (db (fst (run (stop_run @ next_turn))) ''job'') = Some Completed"
  by (simp add: lifecycle_defs run_defs sample_defs)

text \<open>
  Claim C2 does not hold of the code. Before the pause the execution has visited
  the start page and holds two links in its queue. \<^verbatim>\<open>resumeCrawl\<close> starts a second
  execution of \<^verbatim>\<open>processCrawl\<close>, whose \<^verbatim>\<open>visitedUrls\<close> is empty and whose queue holds
  the start URL: the start page is navigated to a second time, and the store then
  lists it twice and counts two pages. When the paused execution has its next
  turn before the resume, the job is no longer paused and \<^verbatim>\<open>resumeCrawl\<close> returns
  false.
\<close>

theorem resume_restarts_from_start_url:
  "p_visitedUrls (snd (run pause_run) ! 0) = [''http://a/'']
   \<and> p_urlQueue (snd (run pause_run) ! 0) = [(''http://a/x'', 1), (''http://a/y'', 1)]
   \<and> length (snd (run resume_run)) = 2
   \<and> p_visitedUrls (snd (run resume_run) ! 1) = []
   \<and> p_urlQueue (snd (run resume_run) ! 1) = [(''http://a/'', 0)]
   \<and> map_option j_visitedUrls (db (fst (run resume_run)) ''job'') = Some [''http://a/'']
   \<and> map_option j_visitedUrls (db (fst (run (resume_run @ resumed_turns))) ''job'')
        = Some [''http://a/'', ''http://a/'']
   \<and> map_option j_pagesProcessed (db (fst (run (resume_run @ resumed_turns))) ''job'') = Some 2
   \<and> filter (\<lambda>c. case c of Goto pg u \<Rightarrow> True | _ \<Rightarrow> False)
         (ext_calls (fst (run (resume_run @ resumed_turns))))
        = [Goto 1 ''http://a/'', Goto 2 ''http://a/'']
   \<and> snd (snd (resumeCrawl (fst (run (pause_run @ next_turn))) ''job'')) = False"
  by (simp add: lifecycle_defs run_defs sample_defs)

text \<open>
  Claim C4 does not hold of the code. \<^verbatim>\<open>cleanupCrawl\<close> removes the job from
  \<^verbatim>\<open>activeCrawls\<close> only after it has awaited the closing of the pages, of the
  context and of the browser and the update of the store, and \<^verbatim>\<open>processCrawl\<close> calls
  \<^verbatim>\<open>cleanupCrawl\<close> itself when it has left its loop. After a single call of
  \<^verbatim>\<open>stopCrawl\<close>, which returns true, the execution of \<^verbatim>\<open>processCrawl\<close> leaves the loop
  because the status is \<^verbatim>\<open>stopped\<close>, sets the status to \<^verbatim>\<open>completed\<close> in memory and in
  the store, and finds the job still in \<^verbatim>\<open>activeCrawls\<close>: the page, the context and
  the browser are each closed twice. When the call of \<^verbatim>\<open>stopCrawl\<close> has returned
  before anything else runs, everything is closed once, and a second call returns
  false.
\<close>

theorem stopCrawl_releases_twice:
  "map s_at (stopCalls (fst (run (one_page_run @ [StopCrawl ''job'']))))
     = [StopUpdating]
   \<and> cd_pages (heap (fst (run one_page_run)) 0) = [1]
   \<and> map s_at (stopCalls (fst (run overlap_run))) = [StopReturned True]
   \<and> map p_phase (snd (run overlap_run)) = [Returned]
   \<and> drop (length (ext_calls (fst (run one_page_run)))) (ext_calls (fst (run overlap_run)))
        = [ClosePage 1, ClosePage 1, CloseContext 0, CloseContext 0,
           CloseBrowser 0, CloseBrowser 0]
   \<and> releases (ext_calls (fst (run overlap_run))) (ClosePage 1) = 2
   \<and> releases (ext_calls (fst (run overlap_run))) (CloseContext 0) = 2
   \<and> releases (ext_calls (fst (run overlap_run))) (CloseBrowser 0) = 2
   \<and> cd_status (heap (fst (run overlap_run)) 0) = Completed
   \<and> map_option j_status (db (fst (run overlap_run)) ''job'') = Some Completed
   \<and> map s_at (stopCalls (fst (run sequential_run))) = [StopReturned True, StopReturned False]
   \<and> map p_phase (snd (run sequential_run)) = [Returned]
   \<and> releases (ext_calls (fst (run sequential_run))) (ClosePage 1) = 1
   \<and> releases (ext_calls (fst (run sequential_run))) (CloseContext 0) = 1
   \<and> releases (ext_calls (fst (run sequential_run))) (CloseBrowser 0) = 1"
  by (simp add: overlap_run_def sequential_run_def one_page_run_def run_defs sample_defs
      releases_def)

end
